theory Spec2Isabelle
  imports Complex_Main
begin

section \<open>The asteroid field of HyperspeedTransition.tsx\<close>

text \<open>
  The asteroid field lays out one body per project, keeps the bodies (and their text
  labels) apart with a separating-axis test on convex colliders, and bounces them off the
  padded viewport. A JavaScript \<open>number\<close> is modelled as a \<open>real\<close>: every statement below is
  about exact arithmetic, and rounding of IEEE doubles is outside the model.
  \<open>Math.random()\<close> and \<open>window.innerWidth\<close> are inputs of the functions that read them.
\<close>

subsection \<open>Data\<close>

text \<open>\<open>type Pt = { x: number; y: number }\<close>: \<open>fst\<close> is \<open>x\<close>, \<open>snd\<close> is \<open>y\<close>.\<close>

type_synonym Pt = "real \<times> real"

text \<open>\<open>type MTV = { nx: number; ny: number; overlap: number }\<close>.\<close>

record MTV =
  mtv_nx :: real
  mtv_ny :: real
  mtv_overlap :: real

text \<open>
  \<open>interface Asteroid\<close>, field by field (\<open>a_x\<close> is \<open>x\<close>, and so on); of the project only its
  id is kept. There is no field for the label rectangle.
\<close>

record Asteroid =
  a_project :: string
  a_x :: real
  a_y :: real
  a_size :: real
  a_rotation :: real
  a_driftX :: real
  a_driftY :: real
  a_rotationSpeed :: real
  a_vertices :: "Pt list"
  a_r :: real

text \<open>What \<open>getLabelRect\<close> returns: \<open>{ x, y, w, h }\<close>.\<close>

record LabelRect =
  lr_x :: real
  lr_y :: real
  lr_w :: real
  lr_h :: real

text \<open>Reading a property of \<open>undefined\<close> throws a \<open>TypeError\<close>.\<close>

datatype js_error = TypeError

subsection \<open>Silhouette\<close>

definition hypot :: "real \<Rightarrow> real \<Rightarrow> real" where
  "hypot a b = sqrt (a * a + b * b)"

text \<open>
  \<open>generateAsteroidVertices(size)\<close>; \<open>rnd\<close> is the value of \<open>Math.random()\<close>, in \<open>[0, 1)\<close>.
\<close>

definition wobble :: "real \<Rightarrow> real \<Rightarrow> real" where
  "wobble seed angle = 0.92 + sin (angle * 2 + seed) * 0.06 + cos (angle * 3.2 + seed * 0.7) * 0.05"

definition asteroidVertex :: "real \<Rightarrow> real \<Rightarrow> nat \<Rightarrow> Pt" where
  "asteroidVertex seed sz i =
     (let angle = (real i / 18) * pi * 2;
          rr = (sz / 2) * wobble seed angle
      in (cos angle * rr, sin angle * rr))"

definition generateAsteroidVertices :: "real \<Rightarrow> real \<Rightarrow> Pt list" where
  "generateAsteroidVertices rnd sz =
     (let seed = rnd * pi * 2 in map (asteroidVertex seed sz) [0..<18])"

subsection \<open>Label geometry\<close>

definition LABEL_GAP :: real where "LABEL_GAP = 18"
definition LABEL_W_DESKTOP :: real where "LABEL_W_DESKTOP = 280"
definition LABEL_H_DESKTOP :: real where "LABEL_H_DESKTOP = 44"

text \<open>\<open>getLabelDims()\<close>, as \<open>(w, h)\<close>; the argument is \<open>window.innerWidth\<close>.\<close>

definition getLabelDims :: "real \<Rightarrow> real \<times> real" where
  "getLabelDims innerWidth =
     (if innerWidth \<ge> 1024 then LABEL_W_DESKTOP else 240,
      if innerWidth \<ge> 1024 then LABEL_H_DESKTOP else 40)"

definition getLabelRect :: "real \<Rightarrow> Asteroid \<Rightarrow> LabelRect" where
  "getLabelRect innerWidth a =
     (let (w, h) = getLabelDims innerWidth
      in \<lparr> lr_x = a_x a - w / 2, lr_y = a_y a + a_r a + LABEL_GAP, lr_w = w, lr_h = h \<rparr>)"

subsection \<open>Convex hull (monotone chain)\<close>

definition cross :: "Pt \<Rightarrow> Pt \<Rightarrow> Pt \<Rightarrow> real" where
  "cross p0 a b = (fst a - fst p0) * (snd b - snd p0) - (snd a - snd p0) * (fst b - fst p0)"

text \<open>
  The comparator of the sort, \<open>(a, b) => (a.x === b.x ? a.y - b.y : a.x - b.x)\<close>, and a
  stable sort by it (\<open>Array.prototype.sort\<close> is stable).
\<close>

definition cmpPt :: "Pt \<Rightarrow> Pt \<Rightarrow> real" where
  "cmpPt a b = (if fst a = fst b then snd a - snd b else fst a - fst b)"

fun insertPt :: "Pt \<Rightarrow> Pt list \<Rightarrow> Pt list" where
  "insertPt a [] = [a]"
| "insertPt a (b # bs) = (if cmpPt a b \<le> 0 then a # b # bs else b # insertPt a bs)"

definition sortPts :: "Pt list \<Rightarrow> Pt list" where
  "sortPts pts = foldr insertPt pts []"

text \<open>
  The inner \<open>while\<close> loop, on the stack held top first: pop while the two topmost points
  and \<open>pt\<close> make no left turn.
\<close>

fun popTurns :: "Pt list \<Rightarrow> Pt \<Rightarrow> Pt list" where
  "popTurns (b # a # rest) pt =
     (if cross a b pt \<le> 0 then popTurns (a # rest) pt else b # a # rest)"
| "popTurns st pt = st"

text \<open>One \<open>for\<close> loop over the points \<open>p\<close>, returning the chain in array order.\<close>

definition halfHull :: "Pt list \<Rightarrow> Pt list" where
  "halfHull p = rev (foldl (\<lambda>st pt. pt # popTurns st pt) [] p)"

definition convexHull :: "Pt list \<Rightarrow> Pt list" where
  "convexHull pts =
     (if length pts \<le> 3 then pts
      else let p = sortPts pts;
               lower = halfHull p;
               upper = halfHull (rev p)
           in butlast lower @ butlast upper)"

subsection \<open>Separating-axis test\<close>

definition dot :: "Pt \<Rightarrow> Pt \<Rightarrow> real" where
  "dot a b = fst a * fst b + snd a * snd b"

text \<open>\<open>projectPoly\<close>, as \<open>(min, max)\<close>; \<open>poly[0]\<close> of an empty array is \<open>undefined\<close>.\<close>

fun projectPoly :: "Pt list \<Rightarrow> Pt \<Rightarrow> js_error + (real \<times> real)" where
  "projectPoly [] axis = Inl TypeError"
| "projectPoly (p0 # ps) axis =
     Inr (foldl (\<lambda>(mn, mx) q. let d = dot q axis
                               in (if d < mn then d else mn, if d > mx then d else mx))
                (dot p0 axis, dot p0 axis) ps)"

definition normalize :: "Pt \<Rightarrow> Pt" where
  "normalize v =
     (let len = (if hypot (fst v) (snd v) = 0 then 1 / 10 ^ 9 else hypot (fst v) (snd v))
      in (fst v / len, snd v / len))"

text \<open>
  The pairs \<open>(poly[i], poly[(i + 1) % poly.length])\<close> that \<open>testAxesFrom\<close> walks through.
\<close>

definition edges :: "Pt list \<Rightarrow> (Pt \<times> Pt) list" where
  "edges poly = map (\<lambda>i. (poly ! i, poly ! ((i + 1) mod length poly))) [0..<length poly]"

text \<open>
  \<open>bestOverlap\<close> and \<open>bestAxis\<close> are assigned together: \<open>None\<close> is the initial
  \<open>(Infinity, null)\<close>. The loop of \<open>testAxesFrom\<close> returns \<open>separated\<close> and the best pair.
\<close>

fun testAxes ::
  "Pt list \<Rightarrow> Pt list \<Rightarrow> (Pt \<times> Pt) list \<Rightarrow> (real \<times> Pt) option
     \<Rightarrow> js_error + (bool \<times> (real \<times> Pt) option)" where
  "testAxes A B [] best = Inr (False, best)"
| "testAxes A B ((p1, p2) # es) best =
     (let edge = (fst p2 - fst p1, snd p2 - snd p1);
          axis = normalize (- snd edge, fst edge)
      in case projectPoly A axis of
           Inl e \<Rightarrow> Inl e
         | Inr pA \<Rightarrow>
            (case projectPoly B axis of
               Inl e \<Rightarrow> Inl e
             | Inr pB \<Rightarrow>
                (let overlap = min (snd pA) (snd pB) - max (fst pA) (fst pB)
                 in if overlap \<le> 0 then Inr (True, best)
                    else testAxes A B es
                           (case best of
                              None \<Rightarrow> Some (overlap, axis)
                            | Some (bestOverlap, bestAxis) \<Rightarrow>
                                if overlap < bestOverlap then Some (overlap, axis) else best))))"

definition testAxesFrom ::
  "Pt list \<Rightarrow> Pt list \<Rightarrow> Pt list \<Rightarrow> (real \<times> Pt) option
     \<Rightarrow> js_error + (bool \<times> (real \<times> Pt) option)" where
  "testAxesFrom A B poly best = testAxes A B (edges poly) best"

definition centroid :: "Pt list \<Rightarrow> Pt" where
  "centroid poly =
     (let (sx, sy) = foldl (\<lambda>(sx, sy) p. (sx + fst p, sy + snd p)) (0, 0) poly
      in (sx / real (length poly), sy / real (length poly)))"

definition satMTV :: "Pt list \<Rightarrow> Pt list \<Rightarrow> js_error + MTV option" where
  "satMTV A B =
     (case testAxesFrom A B A None of
        Inl e \<Rightarrow> Inl e
      | Inr (sep1, best1) \<Rightarrow>
          if sep1 then Inr None
          else (case testAxesFrom A B B best1 of
                  Inl e \<Rightarrow> Inl e
                | Inr (sep2, best2) \<Rightarrow>
                    if sep2 then Inr None
                    else (case best2 of
                            None \<Rightarrow> Inr None
                          | Some (bestOverlap, bestAxis) \<Rightarrow>
                              (let ac = centroid A;
                                   bc = centroid B;
                                   dir = (fst bc - fst ac, snd bc - snd ac);
                                   axis = (if dot dir bestAxis < 0
                                           then (- fst bestAxis, - snd bestAxis)
                                           else bestAxis)
                               in Inr (Some \<lparr> mtv_nx = fst axis, mtv_ny = snd axis,
                                               mtv_overlap = bestOverlap \<rparr>)))))"

subsection \<open>Merged collider\<close>

definition asteroidWorldPoly :: "real \<Rightarrow> Asteroid \<Rightarrow> Pt list" where
  "asteroidWorldPoly innerWidth a =
     (let rad = (a_rotation a * pi) / 180;
          c = cos rad;
          s = sin rad;
          rock = map (\<lambda>v. (a_x a + fst v * c - snd v * s, a_y a + fst v * s + snd v * c))
                     (a_vertices a);
          r = getLabelRect innerWidth a;
          label = [(lr_x r, lr_y r),
                   (lr_x r + lr_w r, lr_y r),
                   (lr_x r + lr_w r, lr_y r + lr_h r),
                   (lr_x r, lr_y r + lr_h r)]
      in convexHull (rock @ label))"

subsection \<open>Wall bounds\<close>

definition clampToBounds :: "real \<Rightarrow> Asteroid \<Rightarrow> real \<Rightarrow> real \<Rightarrow> Asteroid" where
  "clampToBounds innerWidth a width height =
     (let REST = 0.98;
          padding = 40;
          topBiasMaxY = height * 0.72;
          (w, h) = getLabelDims innerWidth;
          halfW = w / 2;
          extentX = max (a_r a) halfW;
          extentYTop = a_r a;
          extentYBottom = a_r a + LABEL_GAP + h;
          minX = padding + extentX;
          maxX = width - padding - extentX;
          minY = padding + extentYTop;
          maxY = max (minY + 50) (topBiasMaxY - extentYBottom);
          EPS = 0.35;
          a1 = (if a_x a < minX
                then a\<lparr> a_x := minX + (minX - a_x a) + EPS, a_driftX := \<bar>a_driftX a\<bar> * REST \<rparr>
                else if a_x a > maxX
                then a\<lparr> a_x := maxX - (a_x a - maxX) - EPS, a_driftX := - \<bar>a_driftX a\<bar> * REST \<rparr>
                else a)
      in if a_y a1 < minY
         then a1\<lparr> a_y := minY + (minY - a_y a1) + EPS, a_driftY := \<bar>a_driftY a1\<bar> * REST \<rparr>
         else if a_y a1 > maxY
         then a1\<lparr> a_y := maxY - (a_y a1 - maxY) - EPS, a_driftY := - \<bar>a_driftY a1\<bar> * REST \<rparr>
         else a1)"

subsection \<open>Overlap solver\<close>

text \<open>
  The body of the pair loop after \<open>if (!mtv) continue\<close>: positional correction, then the
  normal and tangential impulses when the bodies are closing. Returns the new \<open>(A, B)\<close>.
\<close>

definition resolvePair :: "MTV \<Rightarrow> Asteroid \<Rightarrow> Asteroid \<Rightarrow> Asteroid \<times> Asteroid" where
  "resolvePair mtv A B =
     (let SEP = 0.25;
          nx = mtv_nx mtv;
          ny = mtv_ny mtv;
          push = (mtv_overlap mtv + SEP) * 0.5;
          A1 = A\<lparr> a_x := a_x A - nx * push, a_y := a_y A - ny * push \<rparr>;
          B1 = B\<lparr> a_x := a_x B + nx * push, a_y := a_y B + ny * push \<rparr>;
          rvx = a_driftX B1 - a_driftX A1;
          rvy = a_driftY B1 - a_driftY A1;
          relN = rvx * nx + rvy * ny
      in if relN < 0
         then (let REST = 0.97;
                   j = - (1 + REST) * relN * 0.5;
                   A2 = A1\<lparr> a_driftX := a_driftX A1 - nx * j, a_driftY := a_driftY A1 - ny * j \<rparr>;
                   B2 = B1\<lparr> a_driftX := a_driftX B1 + nx * j, a_driftY := a_driftY B1 + ny * j \<rparr>;
                   tx = - ny;
                   ty = nx;
                   relT = rvx * tx + rvy * ty;
                   FRICTION = 0.01;
                   jt = - relT * FRICTION * 0.5
               in (A2\<lparr> a_driftX := a_driftX A2 - tx * jt, a_driftY := a_driftY A2 - ty * jt \<rparr>,
                   B2\<lparr> a_driftX := a_driftX B2 + tx * jt, a_driftY := a_driftY B2 + ty * jt \<rparr>))
         else (A1, B1))"

text \<open>The index pairs \<open>i < j\<close> in the order of the two nested \<open>for\<close> loops.\<close>

definition pairs :: "nat \<Rightarrow> (nat \<times> nat) list" where
  "pairs n = concat (map (\<lambda>i. map (\<lambda>j. (i, j)) [i + 1..<n]) [0..<n])"

text \<open>The pair loop of one iteration; the array is updated in place at \<open>i\<close> and \<open>j\<close>.\<close>

fun pairLoop :: "real \<Rightarrow> (nat \<times> nat) list \<Rightarrow> Asteroid list \<Rightarrow> js_error + Asteroid list" where
  "pairLoop innerWidth [] asteroids = Inr asteroids"
| "pairLoop innerWidth ((i, j) # ps) asteroids =
     (case satMTV (asteroidWorldPoly innerWidth (asteroids ! i))
                  (asteroidWorldPoly innerWidth (asteroids ! j)) of
        Inl e \<Rightarrow> Inl e
      | Inr None \<Rightarrow> pairLoop innerWidth ps asteroids
      | Inr (Some mtv) \<Rightarrow>
          (let (A', B') = resolvePair mtv (asteroids ! i) (asteroids ! j)
           in pairLoop innerWidth ps (asteroids[i := A', j := B'])))"

definition clampAll :: "real \<Rightarrow> real \<Rightarrow> real \<Rightarrow> Asteroid list \<Rightarrow> Asteroid list" where
  "clampAll innerWidth width height asteroids =
     map (\<lambda>a. clampToBounds innerWidth a width height) asteroids"

fun resolveOverlaps ::
  "real \<Rightarrow> Asteroid list \<Rightarrow> real \<Rightarrow> real \<Rightarrow> nat \<Rightarrow> js_error + Asteroid list" where
  "resolveOverlaps innerWidth asteroids width height 0 = Inr asteroids"
| "resolveOverlaps innerWidth asteroids width height (Suc iterations) =
     (case pairLoop innerWidth (pairs (length asteroids)) asteroids of
        Inl e \<Rightarrow> Inl e
      | Inr moved \<Rightarrow>
          resolveOverlaps innerWidth (clampAll innerWidth width height moved)
            width height iterations)"

subsection \<open>Interaction\<close>

text \<open>
  \<open>hitTest(clientX, clientY)\<close>; \<open>rect\<close> is \<open>None\<close> when \<open>containerRef.current\<close> is null, and
  otherwise \<open>(rect.left, rect.top)\<close> of the container's bounding rectangle.
\<close>

fun hitLoop :: "real \<Rightarrow> real \<Rightarrow> Asteroid list \<Rightarrow> Asteroid option" where
  "hitLoop x y [] = None"
| "hitLoop x y (a # rest) =
     (let dx = x - a_x a;
          dy = y - a_y a;
          dist = hypot dx dy
      in if dist < a_r a + 12 then Some a else hitLoop x y rest)"

definition hitTest ::
  "(real \<times> real) option \<Rightarrow> Asteroid list \<Rightarrow> real \<Rightarrow> real \<Rightarrow> Asteroid option" where
  "hitTest rect asteroids clientX clientY =
     (case rect of
        None \<Rightarrow> None
      | Some (rleft, rtop) \<Rightarrow> hitLoop (clientX - rleft) (clientY - rtop) asteroids)"

subsection \<open>Notions used in the statements\<close>

text \<open>
  The bounds that \<open>clampToBounds\<close> computes for a body: \<open>minX\<close>, \<open>maxX\<close>, \<open>minY\<close>, \<open>maxY\<close>.
\<close>

definition boundsMinX :: "real \<Rightarrow> Asteroid \<Rightarrow> real" where
  "boundsMinX innerWidth a = 40 + max (a_r a) (fst (getLabelDims innerWidth) / 2)"

definition boundsMaxX :: "real \<Rightarrow> Asteroid \<Rightarrow> real \<Rightarrow> real" where
  "boundsMaxX innerWidth a width = width - 40 - max (a_r a) (fst (getLabelDims innerWidth) / 2)"

definition boundsMinY :: "Asteroid \<Rightarrow> real" where
  "boundsMinY a = 40 + a_r a"

definition boundsMaxY :: "real \<Rightarrow> Asteroid \<Rightarrow> real \<Rightarrow> real" where
  "boundsMaxY innerWidth a height =
     max (boundsMinY a + 50) (height * 0.72 - (a_r a + LABEL_GAP + snd (getLabelDims innerWidth)))"

text \<open>The centre of the body lies in \<open>[minX, maxX] \<times> [minY, maxY]\<close>.\<close>

definition inBounds :: "real \<Rightarrow> Asteroid \<Rightarrow> real \<Rightarrow> real \<Rightarrow> bool" where
  "inBounds innerWidth a width height =
     (boundsMinX innerWidth a \<le> a_x a \<and> a_x a \<le> boundsMaxX innerWidth a width \<and>
      boundsMinY a \<le> a_y a \<and> a_y a \<le> boundsMaxY innerWidth a height)"

text \<open>
  The centre is outside the rectangle by no more than the rectangle's own extent less
  \<open>EPS\<close>, so that the mirror image taken by \<open>clampToBounds\<close> lands inside.
\<close>

definition withinReach :: "real \<Rightarrow> Asteroid \<Rightarrow> real \<Rightarrow> real \<Rightarrow> bool" where
  "withinReach innerWidth a width height =
     (let spanX = boundsMaxX innerWidth a width - boundsMinX innerWidth a - 0.35;
          spanY = boundsMaxY innerWidth a height - boundsMinY a - 0.35
      in boundsMinX innerWidth a - spanX \<le> a_x a \<and> a_x a \<le> boundsMaxX innerWidth a width + spanX \<and>
         boundsMinY a - spanY \<le> a_y a \<and> a_y a \<le> boundsMaxY innerWidth a height + spanY)"

text \<open>The test of \<open>hitTest\<close> on one body, at the container-local point \<open>(x, y)\<close>.\<close>

definition hits :: "real \<Rightarrow> real \<Rightarrow> Asteroid \<Rightarrow> bool" where
  "hits x y a = (hypot (x - a_x a) (y - a_y a) < a_r a + 12)"

text \<open>
  The three steps of one turn of the loop in \<open>testAxesFrom\<close>: the axis of an edge, the
  overlap of two projections, and the update of the best pair.
\<close>

definition edgeAxis :: "Pt \<Rightarrow> Pt \<Rightarrow> Pt" where
  "edgeAxis p1 p2 = normalize (- (snd p2 - snd p1), fst p2 - fst p1)"

definition axisOverlap :: "real \<times> real \<Rightarrow> real \<times> real \<Rightarrow> real" where
  "axisOverlap pA pB = min (snd pA) (snd pB) - max (fst pA) (fst pB)"

definition better :: "(real \<times> Pt) option \<Rightarrow> real \<Rightarrow> Pt \<Rightarrow> (real \<times> Pt) option" where
  "better best overlap axis =
     (case best of
        None \<Rightarrow> Some (overlap, axis)
      | Some (bestOverlap, bestAxis) \<Rightarrow>
          if overlap < bestOverlap then Some (overlap, axis) else best)"


text \<open>
  The listings of a polygon that start at any one of its vertices and run in either
  direction.
\<close>

definition listings :: "'a list \<Rightarrow> 'a list list" where
  "listings poly = concat (map (\<lambda>k. [rotate k poly, rotate k (rev poly)]) [0..<length poly])"

text \<open>
  For the unit squares: the projections of a unit square centred at \<open>(cx, cy)\<close> on the
  four axes that its edges have; edges that have only those axes, and edges one of which
  has an axis along X; the best pairs that the loop of \<open>testAxesFrom\<close> holds for two unit
  squares offset by \<open>d\<close> along X, and those of them with an axis along X.
\<close>

definition sqProj :: "Pt list \<Rightarrow> real \<Rightarrow> real \<Rightarrow> bool" where
  "sqProj P cx cy =
     (projectPoly P (1, 0) = Inr (cx - 1 / 2, cx + 1 / 2) \<and>
      projectPoly P (- 1, 0) = Inr (- cx - 1 / 2, - cx + 1 / 2) \<and>
      projectPoly P (0, 1) = Inr (cy - 1 / 2, cy + 1 / 2) \<and>
      projectPoly P (0, - 1) = Inr (- cy - 1 / 2, - cy + 1 / 2))"

definition sqAxes :: "(Pt \<times> Pt) list \<Rightarrow> bool" where
  "sqAxes es =
     (\<forall>(p1, p2) \<in> set es. edgeAxis p1 p2 = (1, 0) \<or> edgeAxis p1 p2 = (- 1, 0) \<or>
                           edgeAxis p1 p2 = (0, 1) \<or> edgeAxis p1 p2 = (0, - 1))"

definition sqAxesX :: "(Pt \<times> Pt) list \<Rightarrow> bool" where
  "sqAxesX es = (\<exists>(p1, p2) \<in> set es. edgeAxis p1 p2 = (1, 0) \<or> edgeAxis p1 p2 = (- 1, 0))"

definition sqBest :: "real \<Rightarrow> (real \<times> Pt) option \<Rightarrow> bool" where
  "sqBest d best =
     (case best of
        None \<Rightarrow> True
      | Some (bo, ba) \<Rightarrow>
          (bo = 1 - \<bar>d\<bar> \<and> (ba = (1, 0) \<or> ba = (- 1, 0))) \<or>
          (bo = 1 \<and> (ba = (0, 1) \<or> ba = (0, - 1))))"

definition sqBestX :: "real \<Rightarrow> (real \<times> Pt) option \<Rightarrow> bool" where
  "sqBestX d best = (best = Some (1 - \<bar>d\<bar>, (1, 0)) \<or> best = Some (1 - \<bar>d\<bar>, (- 1, 0)))"

text \<open>The point \<open>p\<close> moved by the vector \<open>t\<close>.\<close>

definition shift :: "Pt \<Rightarrow> Pt \<Rightarrow> Pt" where
  "shift t p = (fst p + fst t, snd p + snd t)"


subsection \<open>Notions for the convex hull\<close>

text \<open>
  The strict order of the sort: \<open>lexLess a b\<close> is \<open>cmpPt a b < 0\<close>, by x and then by y.
\<close>

definition lexLess :: "Pt \<Rightarrow> Pt \<Rightarrow> bool" where
  "lexLess a b = (fst a < fst b \<or> (fst a = fst b \<and> snd a < snd b))"

text \<open>General position: the points are distinct and no three of them are collinear.\<close>

definition generalPosition :: "Pt list \<Rightarrow> bool" where
  "generalPosition pts =
     (distinct pts \<and>
      (\<forall>a \<in> set pts. \<forall>b \<in> set pts. \<forall>c \<in> set pts.
         a \<noteq> b \<and> b \<noteq> c \<and> a \<noteq> c \<longrightarrow> cross a b c \<noteq> 0))"

text \<open>
  Every three cyclically consecutive vertices of the polygon turn the same way: the
  sign of their \<open>cross\<close> is \<open>s\<close>.
\<close>

definition windingSign :: "Pt list \<Rightarrow> real \<Rightarrow> bool" where
  "windingSign poly s =
     (\<forall>i < length poly.
        sgn (cross (poly ! i) (poly ! ((i + 1) mod length poly))
                   (poly ! ((i + 2) mod length poly))) = s)"

text \<open>
  The point \<open>q\<close> is on the inner side of, or on, the line of every edge of the polygon
  whose winding has sign \<open>s\<close>. When this holds of the polygon's own vertices the polygon
  is convex, and the points for which it holds are those on or inside its boundary.
\<close>

definition insideOrOn :: "Pt list \<Rightarrow> real \<Rightarrow> Pt \<Rightarrow> bool" where
  "insideOrOn poly s q = (\<forall>(a, b) \<in> set (edges poly). 0 \<le> s * cross a b q)"

text \<open>
  For a stack held top first: \<open>q\<close> is left of, or on, every edge of the chain, an edge
  running from a point to the one above it.
\<close>

fun leftOfChain :: "Pt list \<Rightarrow> Pt \<Rightarrow> bool" where
  "leftOfChain (b # a # rest) q = (0 \<le> cross a b q \<and> leftOfChain (a # rest) q)"
| "leftOfChain st q = True"

text \<open>
  The invariant of the \<open>for\<close> loop over ascending points, \<open>S\<close> being the points seen so
  far: the stack descends from the greatest point of \<open>S\<close> to the least, and every point
  of \<open>S\<close> is left of or on every edge of the chain.
\<close>

definition chainInv :: "Pt set \<Rightarrow> Pt list \<Rightarrow> bool" where
  "chainInv S st =
     (st \<noteq> [] \<and> set st \<subseteq> S \<and> sorted_wrt (\<lambda>b a. lexLess a b) st \<and>
      (\<forall>q \<in> S. q = last st \<or> lexLess (last st) q) \<and>
      (\<forall>q \<in> S. q = hd st \<or> lexLess q (hd st)) \<and>
      (\<forall>q \<in> S. leftOfChain st q))"

text \<open>Reflection in the origin, which turns the descending pass into an ascending one.\<close>

definition neg :: "Pt \<Rightarrow> Pt" where
  "neg p = (- fst p, - snd p)"

subsection \<open>Concrete inputs\<close>

text \<open>The axis-aligned unit square centred at \<open>(cx, cy)\<close>.\<close>

definition unitSquare :: "real \<Rightarrow> real \<Rightarrow> Pt list" where
  "unitSquare cx cy =
     [(cx - 1 / 2, cy - 1 / 2), (cx + 1 / 2, cy - 1 / 2), (cx + 1 / 2, cy + 1 / 2),
      (cx - 1 / 2, cy + 1 / 2)]"

text \<open>
  A body of size 87 (radius 43.5) with a diamond for its silhouette, unrotated, at
  \<open>(x, y)\<close> with drift \<open>(dx, dy)\<close>. With the desktop label (280 by 44) its merged
  collider is a pentagon, 280 wide and 149 high, whose edges have rational unit normals.
\<close>

definition rockDiamond :: "Pt list" where
  "rockDiamond = [(87 / 2, 0), (0, 87 / 2), (- (87 / 2), 0), (0, - (87 / 2))]"

definition body :: "real \<Rightarrow> real \<Rightarrow> real \<Rightarrow> real \<Rightarrow> Asteroid" where
  "body x y dx dy =
     \<lparr> a_project = ''p'', a_x = x, a_y = y, a_size = 87, a_rotation = 0, a_driftX = dx,
       a_driftY = dy, a_rotationSpeed = 0, a_vertices = rockDiamond, a_r = 87 / 2 \<rparr>"

text \<open>
  A smaller body, of size 30 (radius 15), at rest at \<open>(x, y)\<close>: its merged collider is a
  pentagon, 280 wide and 92 high.
\<close>

definition pebbleDiamond :: "Pt list" where
  "pebbleDiamond = [(15, 0), (0, 15), (- 15, 0), (0, - 15)]"

definition pebble :: "real \<Rightarrow> real \<Rightarrow> Asteroid" where
  "pebble x y =
     \<lparr> a_project = ''q'', a_x = x, a_y = y, a_size = 30, a_rotation = 0, a_driftX = 0,
       a_driftY = 0, a_rotationSpeed = 0, a_vertices = pebbleDiamond, a_r = 15 \<rparr>"

text \<open>Five points in general position, one of them inside the square of the other four.\<close>

definition hullInput :: "Pt list" where
  "hullInput = [(2, 2), (0, 0), (1, 1 / 2), (2, 0), (0, 2)]"

section \<open>Properties\<close>

subsection \<open>Label rectangle\<close>

text \<open>
  C7. The label rectangle of a body has its top-left corner at
  \<open>(x - W / 2, y + r + 18)\<close>, and is 280 by 44 when \<open>window.innerWidth\<close> is at least 1024
  and 240 by 40 otherwise. It is a function of the body's position and radius and of the
  window width; the body has no field that stores it.
\<close>

theorem getLabelRect_geometry:
  "getLabelRect innerWidth a =
     (if innerWidth \<ge> 1024
      then \<lparr> lr_x = a_x a - 280 / 2, lr_y = a_y a + a_r a + 18, lr_w = 280, lr_h = 44 \<rparr>
      else \<lparr> lr_x = a_x a - 240 / 2, lr_y = a_y a + a_r a + 18, lr_w = 240, lr_h = 40 \<rparr>)"
  by (simp add: getLabelRect_def getLabelDims_def LABEL_GAP_def LABEL_W_DESKTOP_def LABEL_H_DESKTOP_def)

subsection \<open>Pair correction\<close>

text \<open>
  C9. Whatever the MTV, the pair correction (positional push, normal impulse, tangential
  impulse) leaves the sum of the two positions and the sum of the two drifts unchanged.
\<close>

theorem resolvePair_conserves:
  "a_x (fst (resolvePair mtv A B)) + a_x (snd (resolvePair mtv A B)) = a_x A + a_x B \<and>
   a_y (fst (resolvePair mtv A B)) + a_y (snd (resolvePair mtv A B)) = a_y A + a_y B \<and>
   a_driftX (fst (resolvePair mtv A B)) + a_driftX (snd (resolvePair mtv A B)) = a_driftX A + a_driftX B \<and>
   a_driftY (fst (resolvePair mtv A B)) + a_driftY (snd (resolvePair mtv A B)) = a_driftY A + a_driftY B"
  by (simp add: resolvePair_def Let_def)

subsection \<open>Wall bounds\<close>

lemma clamp_x:
  "a_x (clampToBounds iw a w h) =
     (if a_x a < boundsMinX iw a then boundsMinX iw a + (boundsMinX iw a - a_x a) + 0.35
      else if a_x a > boundsMaxX iw a w then boundsMaxX iw a w - (a_x a - boundsMaxX iw a w) - 0.35
      else a_x a)"
  by (simp add: clampToBounds_def Let_def boundsMinX_def boundsMaxX_def split: prod.splits)

lemma clamp_y:
  "a_y (clampToBounds iw a w h) =
     (if a_y a < boundsMinY a then boundsMinY a + (boundsMinY a - a_y a) + 0.35
      else if a_y a > boundsMaxY iw a h then boundsMaxY iw a h - (a_y a - boundsMaxY iw a h) - 0.35
      else a_y a)"
  by (simp add: clampToBounds_def Let_def boundsMinY_def boundsMaxY_def split: prod.splits)

lemma clamp_driftX:
  "a_driftX (clampToBounds iw a w h) =
     (if a_x a < boundsMinX iw a then \<bar>a_driftX a\<bar> * 0.98
      else if a_x a > boundsMaxX iw a w then - \<bar>a_driftX a\<bar> * 0.98
      else a_driftX a)"
  by (simp add: clampToBounds_def Let_def boundsMinX_def boundsMaxX_def split: prod.splits)

lemma clamp_driftY:
  "a_driftY (clampToBounds iw a w h) =
     (if a_y a < boundsMinY a then \<bar>a_driftY a\<bar> * 0.98
      else if a_y a > boundsMaxY iw a h then - \<bar>a_driftY a\<bar> * 0.98
      else a_driftY a)"
  by (simp add: clampToBounds_def Let_def boundsMinY_def boundsMaxY_def split: prod.splits)

lemma clamp_r: "a_r (clampToBounds iw a w h) = a_r a"
  by (simp add: clampToBounds_def Let_def split: prod.splits)

lemma clamp_fields:
  "clampToBounds iw a w h =
     a\<lparr> a_x := a_x (clampToBounds iw a w h), a_y := a_y (clampToBounds iw a w h),
        a_driftX := a_driftX (clampToBounds iw a w h),
        a_driftY := a_driftY (clampToBounds iw a w h) \<rparr>"
  by (simp add: clampToBounds_def Let_def split: prod.splits)

lemma body_sel [simp]:
  "a_x (body x y dx dy) = x" "a_y (body x y dx dy) = y" "a_r (body x y dx dy) = 87 / 2"
  "a_driftX (body x y dx dy) = dx" "a_driftY (body x y dx dy) = dy"
  "a_rotation (body x y dx dy) = 0" "a_vertices (body x y dx dy) = rockDiamond"
  by (simp_all add: body_def)

lemma body_update [simp]:
  "(body x y dx dy)\<lparr> a_y := y', a_driftY := dy' \<rparr> = body x y' dx dy'"
  "(body x y dx dy)\<lparr> a_x := x', a_driftX := dx' \<rparr> = body x' y dx' dy"
  by (simp_all add: body_def)

lemma boundsMinY_body [simp]: "boundsMinY (body x y dx dy) = 167 / 2"
  by (simp add: boundsMinY_def)

lemma bounds_body [simp]:
  assumes "1024 \<le> iw"
  shows "boundsMinX iw (body x y dx dy) = 180"
    "boundsMaxX iw (body x y dx dy) w = w - 180"
    "boundsMaxY iw (body x y dx dy) h = max (267 / 2) (h * (18 / 25) - 211 / 2)"
  using assms
  by (simp_all add: boundsMinX_def boundsMaxX_def boundsMinY_def boundsMaxY_def getLabelDims_def
      LABEL_GAP_def LABEL_W_DESKTOP_def LABEL_H_DESKTOP_def)

lemma clamp_body:
  "clampToBounds iw (body x y dx dy) w h =
     body (a_x (clampToBounds iw (body x y dx dy) w h)) (a_y (clampToBounds iw (body x y dx dy) w h))
          (a_driftX (clampToBounds iw (body x y dx dy) w h))
          (a_driftY (clampToBounds iw (body x y dx dy) w h))"
  by (subst clamp_fields) (simp add: body_def)

lemma clamp_body_desktop:
  assumes "1024 \<le> iw"
  shows "clampToBounds iw (body x y dx dy) w h =
     body (if x < 180 then 180 + (180 - x) + 7 / 20
           else if x > w - 180 then w - 180 - (x - (w - 180)) - 7 / 20 else x)
          (if y < 167 / 2 then 167 / 2 + (167 / 2 - y) + 7 / 20
           else if y > max (267 / 2) (h * (18 / 25) - 211 / 2)
           then max (267 / 2) (h * (18 / 25) - 211 / 2)
                  - (y - max (267 / 2) (h * (18 / 25) - 211 / 2)) - 7 / 20
           else y)
          (if x < 180 then \<bar>dx\<bar> * (49 / 50)
           else if x > w - 180 then - \<bar>dx\<bar> * (49 / 50) else dx)
          (if y < 167 / 2 then \<bar>dy\<bar> * (49 / 50)
           else if y > max (267 / 2) (h * (18 / 25) - 211 / 2) then - \<bar>dy\<bar> * (49 / 50)
           else dy)"
proof -
  have x: "a_x (clampToBounds iw (body x y dx dy) w h) =
          (if x < 180 then 180 + (180 - x) + 7 / 20
           else if x > w - 180 then w - 180 - (x - (w - 180)) - 7 / 20 else x)"
    using assms by (simp add: clamp_x)
  have y: "a_y (clampToBounds iw (body x y dx dy) w h) =
          (if y < 167 / 2 then 167 / 2 + (167 / 2 - y) + 7 / 20
           else if y > max (267 / 2) (h * (18 / 25) - 211 / 2)
           then max (267 / 2) (h * (18 / 25) - 211 / 2)
                  - (y - max (267 / 2) (h * (18 / 25) - 211 / 2)) - 7 / 20
           else y)"
    using assms by (simp add: clamp_y)
  have vx: "a_driftX (clampToBounds iw (body x y dx dy) w h) =
          (if x < 180 then \<bar>dx\<bar> * (49 / 50)
           else if x > w - 180 then - \<bar>dx\<bar> * (49 / 50) else dx)"
    using assms by (simp add: clamp_driftX)
  have vy: "a_driftY (clampToBounds iw (body x y dx dy) w h) =
          (if y < 167 / 2 then \<bar>dy\<bar> * (49 / 50)
           else if y > max (267 / 2) (h * (18 / 25) - 211 / 2) then - \<bar>dy\<bar> * (49 / 50)
           else dy)"
    using assms by (simp add: clamp_driftY)
  show ?thesis
    by (subst clamp_body) (simp only: x y vx vy)
qed

lemma clamp_bounds [simp]:
  "boundsMinX iw (clampToBounds iw a w h) = boundsMinX iw a"
  "boundsMaxX iw (clampToBounds iw a w h) w' = boundsMaxX iw a w'"
  "boundsMinY (clampToBounds iw a w h) = boundsMinY a"
  "boundsMaxY iw (clampToBounds iw a w h) h' = boundsMaxY iw a h'"
  by (simp_all add: boundsMinX_def boundsMaxX_def boundsMinY_def boundsMaxY_def clamp_r)

lemma clamp_in_bounds:
  assumes "withinReach iw a w h"
  shows "inBounds iw (clampToBounds iw a w h) w h"
  using assms unfolding withinReach_def inBounds_def Let_def clamp_bounds clamp_x clamp_y
  by (simp split: if_splits)

lemma clamp_fixed:
  assumes "inBounds iw a w h"
  shows "clampToBounds iw a w h = a"
proof -
  obtain lw lh where d: "getLabelDims iw = (lw, lh)" by (cases "getLabelDims iw")
  from assms d show ?thesis
    unfolding inBounds_def boundsMinX_def boundsMaxX_def boundsMinY_def boundsMaxY_def
    by (auto simp: clampToBounds_def Let_def)
qed

text \<open>
  C3, as amended. A body whose centre is left of \<open>minX\<close> is mirrored to
  \<open>minX + (minX - x) + 0.35\<close>, which is not left of \<open>minX\<close>, and its drift X becomes
  \<open>0.98 * |driftX|\<close>: it points inward, so an outward drift has its sign flipped and an
  inward drift keeps its sign, the magnitude being scaled by 0.98 in both cases.
\<close>

theorem clampToBounds_left_wall:
  assumes "a_x a < boundsMinX iw a"
  shows "a_x (clampToBounds iw a w h) = boundsMinX iw a + (boundsMinX iw a - a_x a) + 0.35 \<and>
         boundsMinX iw a \<le> a_x (clampToBounds iw a w h) \<and>
         a_driftX (clampToBounds iw a w h) = \<bar>a_driftX a\<bar> * 0.98 \<and>
         0 \<le> a_driftX (clampToBounds iw a w h) \<and>
         (a_driftX a < 0 \<longrightarrow> a_driftX (clampToBounds iw a w h) = - a_driftX a * 0.98) \<and>
         (0 \<le> a_driftX a \<longrightarrow> a_driftX (clampToBounds iw a w h) = a_driftX a * 0.98)"
  using assms by (simp add: clamp_x clamp_driftX)

text \<open>
  A body 80 left of \<open>minX = 180\<close>, drifting outward, in a viewport of 1200 by 700: the
  drift is flipped and scaled.
\<close>

theorem clampToBounds_left_wall_witness:
  "a_x (body 100 300 (- 1) 0) < boundsMinX 1200 (body 100 300 (- 1) 0) \<and>
   a_x (clampToBounds 1200 (body 100 300 (- 1) 0) 1200 700) = 260.35 \<and>
   a_driftX (clampToBounds 1200 (body 100 300 (- 1) 0) 1200 700) = 0.98"
  using clampToBounds_left_wall [of "body 100 300 (- 1) 0" 1200 1200 700] by simp

text \<open>
  C3 as stated fails: the same body with its drift already pointing inward (\<open>driftX = 1\<close>)
  keeps the sign of its drift, \<open>0.98\<close>.
\<close>

theorem wall_bounce_inward_counterexample:
  "a_x (body 100 300 1 0) < boundsMinX 1200 (body 100 300 1 0) \<and>
   0 < a_driftX (body 100 300 1 0) \<and>
   a_driftX (clampToBounds 1200 (body 100 300 1 0) 1200 700) = 0.98 \<and>
   sgn (a_driftX (clampToBounds 1200 (body 100 300 1 0) 1200 700))
     \<noteq> - sgn (a_driftX (body 100 300 1 0))"
  by (simp add: clamp_driftX)

subsection \<open>Resolution passes\<close>

lemma length_pairLoop:
  "pairLoop iw ps as = Inr res \<Longrightarrow> length res = length as"
proof (induction ps arbitrary: as)
  case Nil
  then show ?case by simp
next
  case (Cons p ps)
  obtain i j where p: "p = (i, j)" by (cases p)
  show ?case
  proof (cases "satMTV (asteroidWorldPoly iw (as ! i)) (asteroidWorldPoly iw (as ! j))")
    case (Inl e)
    with Cons.prems p show ?thesis by simp
  next
    case (Inr m)
    show ?thesis
    proof (cases m)
      case None
      with Cons Inr p show ?thesis by simp
    next
      case (Some mtv)
      obtain A' B' where r: "resolvePair mtv (as ! i) (as ! j) = (A', B')"
        by (cases "resolvePair mtv (as ! i) (as ! j)")
      from Cons.prems p Inr Some r have "pairLoop iw ps (as[i := A', j := B']) = Inr res"
        by simp
      from Cons.IH [OF this] show ?thesis by simp
    qed
  qed
qed

lemma length_clampAll [simp]: "length (clampAll iw w h as) = length as"
  by (simp add: clampAll_def)

lemma length_resolveOverlaps:
  "resolveOverlaps iw as w h n = Inr res \<Longrightarrow> length res = length as"
proof (induction n arbitrary: as)
  case 0
  then show ?case by simp
next
  case (Suc n)
  then show ?case
    by (auto split: sum.splits dest!: length_pairLoop)
qed

lemma resolveOverlaps_last_pass:
  "resolveOverlaps iw as w h (Suc n) = Inr res \<Longrightarrow>
     \<exists>s mid. resolveOverlaps iw as w h n = Inr s \<and>
             pairLoop iw (pairs (length s)) s = Inr mid \<and> res = clampAll iw w h mid"
proof (induction n arbitrary: as)
  case 0
  then show ?case by (auto split: sum.splits)
next
  case (Suc n)
  from Suc.prems obtain moved where m: "pairLoop iw (pairs (length as)) as = Inr moved"
    and r: "resolveOverlaps iw (clampAll iw w h moved) w h (Suc n) = Inr res"
    by (auto split: sum.splits)
  from Suc.IH [OF r] obtain s mid where
    "resolveOverlaps iw (clampAll iw w h moved) w h n = Inr s"
    "pairLoop iw (pairs (length s)) s = Inr mid" "res = clampAll iw w h mid"
    by blast
  with m show ?case by auto
qed

text \<open>
  C2, as amended. A resolution with at least one iteration is the resolution with one
  iteration fewer, which gives \<open>s\<close>, then the pair loop on \<open>s\<close>, which gives \<open>mid\<close>, then
  \<open>clampToBounds\<close> on every body of \<open>mid\<close>; and every body of \<open>mid\<close> that is within reach
  of the rectangle (outside by no more than the rectangle's extent less 0.35 on each
  axis) ends inside \<open>[minX, maxX] \<times> [minY, maxY]\<close>.
\<close>

theorem resolveOverlaps_containment:
  assumes "resolveOverlaps iw as w h (Suc n) = Inr res"
  shows "\<exists>s mid. resolveOverlaps iw as w h n = Inr s \<and>
           pairLoop iw (pairs (length s)) s = Inr mid \<and>
           length mid = length as \<and> res = clampAll iw w h mid \<and>
           (\<forall>i < length as. withinReach iw (mid ! i) w h \<longrightarrow> inBounds iw (res ! i) w h)"
proof -
  from resolveOverlaps_last_pass [OF assms] obtain s mid where
    s: "resolveOverlaps iw as w h n = Inr s" and
    mid: "pairLoop iw (pairs (length s)) s = Inr mid" and
    res: "res = clampAll iw w h mid"
    by blast
  have len: "length mid = length as"
    using length_pairLoop [OF mid] length_resolveOverlaps [OF s] by simp
  have "\<forall>i < length as. withinReach iw (mid ! i) w h \<longrightarrow> inBounds iw (res ! i) w h"
    using len res by (simp add: clampAll_def clamp_in_bounds)
  with s mid len res show ?thesis by blast
qed

text \<open>
  One body, 80 left of \<open>minX = 180\<close>, in a viewport of 1200 by 700: the pair loop leaves
  it where it is, within reach, and the clamp brings it inside.
\<close>

theorem resolveOverlaps_containment_witness:
  "resolveOverlaps 1200 [body 100 300 0 0] 1200 700 (Suc 0) = Inr [body 260.35 300 0 0] \<and>
   resolveOverlaps 1200 [body 100 300 0 0] 1200 700 0 = Inr [body 100 300 0 0] \<and>
   pairLoop 1200 (pairs (length [body 100 300 0 0])) [body 100 300 0 0] = Inr [body 100 300 0 0] \<and>
   withinReach 1200 (body 100 300 0 0) 1200 700 \<and>
   inBounds 1200 (body 260.35 300 0 0) 1200 700"
proof -
  have r: "resolveOverlaps 1200 [body 100 300 0 0] 1200 700 (Suc 0) = Inr [body 260.35 300 0 0]"
    by (simp add: pairs_def clampAll_def clamp_body_desktop)
  have w: "withinReach 1200 (body 100 300 0 0) 1200 700"
    by (simp add: withinReach_def)
  from resolveOverlaps_containment [OF r] obtain s mid where
    s: "resolveOverlaps 1200 [body 100 300 0 0] 1200 700 0 = Inr s" and
    mid: "pairLoop 1200 (pairs (length s)) s = Inr mid" and
    reach: "\<forall>i < length [body 100 300 0 0]. withinReach 1200 (mid ! i) 1200 700 \<longrightarrow>
              inBounds 1200 ([body 260.35 300 0 0] ! i) 1200 700"
    by (elim exE conjE)
  from s have s': "s = [body 100 300 0 0]" by simp
  with mid have mid': "mid = [body 100 300 0 0]" by (simp add: pairs_def)
  from reach w have "inBounds 1200 ([body 260.35 300 0 0] ! 0) 1200 700"
    unfolding mid' by simp
  then have ib: "inBounds 1200 (body 260.35 300 0 0) 1200 700" by simp
  have z: "resolveOverlaps 1200 [body 100 300 0 0] 1200 700 0 = Inr [body 100 300 0 0]"
    by simp
  have pl: "pairLoop 1200 (pairs (length [body 100 300 0 0])) [body 100 300 0 0]
              = Inr [body 100 300 0 0]"
    by (simp add: pairs_def)
  from r z pl w ib show ?thesis by blast
qed

text \<open>
  C2 as stated fails. In a container 300 wide the label (280) is wider than the space
  between the paddings, so \<open>minX = 180\<close> lies right of \<open>maxX = 120\<close> and no centre is
  within the bounds: a body at \<open>x = 150\<close> is mirrored to \<open>210.35\<close> and then to \<open>29.3\<close>. In
  a container 440 wide the rectangle is \<open>[180, 260]\<close> in X and not empty, but a body at
  \<open>x = 0\<close> is mirrored to \<open>360.35\<close>, beyond \<open>maxX\<close>, by the first iteration and from
  there to \<open>159.3\<close>, short of \<open>minX\<close>, by the second.
\<close>

theorem containment_counterexample:
  "resolveOverlaps 1200 [body 150 300 0 0] 300 700 (Suc (Suc 0)) = Inr [body (293 / 10) 300 0 0] \<and>
   \<not> inBounds 1200 (body (293 / 10) 300 0 0) 300 700 \<and>
   boundsMinX 1200 (body (293 / 10) 300 0 0) = 180 \<and>
   boundsMaxX 1200 (body (293 / 10) 300 0 0) 300 = 120 \<and>
   resolveOverlaps 1200 [body 0 300 0 0] 440 700 (Suc 0) = Inr [body (7207 / 20) 300 0 0] \<and>
   \<not> inBounds 1200 (body (7207 / 20) 300 0 0) 440 700 \<and>
   resolveOverlaps 1200 [body 0 300 0 0] 440 700 (Suc (Suc 0)) = Inr [body (1593 / 10) 300 0 0] \<and>
   \<not> inBounds 1200 (body (1593 / 10) 300 0 0) 440 700 \<and>
   boundsMaxX 1200 (body (7207 / 20) 300 0 0) 440 = 260"
  by (simp add: pairs_def clampAll_def clamp_body_desktop inBounds_def)

subsection \<open>Hit test\<close>

lemma hitLoop_None: "hitLoop x y as = None \<longleftrightarrow> (\<forall>a \<in> set as. \<not> hits x y a)"
  by (induction as) (auto simp: hits_def Let_def)

lemma hitLoop_Some:
  "hitLoop x y as = Some a \<longleftrightarrow>
     (\<exists>i < length as. as ! i = a \<and> hits x y a \<and> (\<forall>j < i. \<not> hits x y (as ! j)))"
proof (induction as)
  case Nil
  then show ?case by simp
next
  case (Cons b bs)
  show ?case
  proof (cases "hits x y b")
    case True
    then have "hitLoop x y (b # bs) = Some b" by (simp add: hits_def Let_def)
    moreover have "(\<exists>i < length (b # bs). (b # bs) ! i = a \<and> hits x y a \<and>
                      (\<forall>j < i. \<not> hits x y ((b # bs) ! j))) \<longleftrightarrow> a = b"
    proof
      assume "\<exists>i < length (b # bs). (b # bs) ! i = a \<and> hits x y a \<and>
                (\<forall>j < i. \<not> hits x y ((b # bs) ! j))"
      then obtain i where i: "(b # bs) ! i = a" "\<forall>j < i. \<not> hits x y ((b # bs) ! j)" by blast
      have "i = 0"
      proof (rule ccontr)
        assume "i \<noteq> 0"
        then have "0 < i" by simp
        with i(2) have "\<not> hits x y ((b # bs) ! 0)" by blast
        with True show False by simp
      qed
      with i(1) show "a = b" by simp
    next
      assume "a = b"
      with True show "\<exists>i < length (b # bs). (b # bs) ! i = a \<and> hits x y a \<and>
                (\<forall>j < i. \<not> hits x y ((b # bs) ! j))"
        by (intro exI [of _ 0]) simp
    qed
    ultimately show ?thesis by auto
  next
    case False
    then have h: "hitLoop x y (b # bs) = hitLoop x y bs" by (simp add: hits_def Let_def)
    have "(\<exists>i < length (b # bs). (b # bs) ! i = a \<and> hits x y a \<and>
              (\<forall>j < i. \<not> hits x y ((b # bs) ! j))) \<longleftrightarrow>
          (\<exists>i < length bs. bs ! i = a \<and> hits x y a \<and> (\<forall>j < i. \<not> hits x y (bs ! j)))"
      (is "?L \<longleftrightarrow> ?R")
    proof
      assume ?L
      then obtain i where i: "i < length (b # bs)" "(b # bs) ! i = a" "hits x y a"
        "\<forall>j < i. \<not> hits x y ((b # bs) ! j)" by blast
      from i(2,3) False have "i \<noteq> 0" by (cases i) auto
      then obtain k where k: "i = Suc k" by (cases i) auto
      have "\<forall>j < k. \<not> hits x y (bs ! j)"
      proof (intro allI impI)
        fix j assume "j < k"
        then have "Suc j < i" using k by simp
        with i(4) have "\<not> hits x y ((b # bs) ! Suc j)" by blast
        then show "\<not> hits x y (bs ! j)" by simp
      qed
      with i k show ?R by (intro exI [of _ k]) simp
    next
      assume ?R
      then obtain k where k: "k < length bs" "bs ! k = a" "hits x y a"
        "\<forall>j < k. \<not> hits x y (bs ! j)" by blast
      have "\<forall>j < Suc k. \<not> hits x y ((b # bs) ! j)"
      proof (intro allI impI)
        fix j assume "j < Suc k"
        then show "\<not> hits x y ((b # bs) ! j)" using False k(4) by (cases j) auto
      qed
      with k show ?L by (intro exI [of _ "Suc k"]) simp
    qed
    with h Cons.IH show ?thesis by simp
  qed
qed

lemma hypot_0_left [simp]: "hypot 0 b = \<bar>b\<bar>"
  by (simp add: hypot_def)

lemma hypot_0_right [simp]: "hypot a 0 = \<bar>a\<bar>"
  by (simp add: hypot_def)

text \<open>
  C8. With the container mounted, \<open>hitTest\<close> returns none exactly when no body is hit, and
  returns a body exactly when that body is hit and stands at an index before which no
  body is hit; a body is hit when its centre is less than \<open>r + 12\<close> from the pointer.
\<close>

theorem hitTest_first_match:
  "(hitTest (Some (rleft, rtop)) as clientX clientY = None \<longleftrightarrow>
      (\<forall>a \<in> set as. \<not> hits (clientX - rleft) (clientY - rtop) a)) \<and>
   (\<forall>a. hitTest (Some (rleft, rtop)) as clientX clientY = Some a \<longleftrightarrow>
      (\<exists>i < length as. as ! i = a \<and> hits (clientX - rleft) (clientY - rtop) a \<and>
         (\<forall>j < i. \<not> hits (clientX - rleft) (clientY - rtop) (as ! j))))"
  by (simp add: hitTest_def hitLoop_None hitLoop_Some)

text \<open>Three bodies: the first is missed, the second and third are hit, the second wins.\<close>

theorem hitTest_first_match_witness:
  "hitTest (Some (10, 20)) [body 500 320 0 0, body 110 320 0 0, body 120 320 0 0] 130 340
     = Some (body 110 320 0 0) \<and>
   \<not> hits 120 320 (body 500 320 0 0) \<and> hits 120 320 (body 110 320 0 0) \<and>
   hits 120 320 (body 120 320 0 0)"
  using hitTest_first_match [of 10 20 "[body 500 320 0 0, body 110 320 0 0, body 120 320 0 0]" 130 340]
  by (simp add: hitTest_def hits_def)

subsection \<open>Silhouette\<close>

lemma wobble_bounds: "0.81 \<le> wobble seed angle \<and> wobble seed angle \<le> 1.03"
proof -
  have lin: "0.81 \<le> 0.92 + s * 0.06 + c * 0.05 \<and> 0.92 + s * 0.06 + c * 0.05 \<le> 1.03"
    if "- 1 \<le> s" "s \<le> 1" "- 1 \<le> c" "c \<le> 1" for s c :: real
    using that by simp
  show ?thesis
    unfolding wobble_def
    by (rule lin) (rule sin_ge_minus_one sin_le_one cos_ge_minus_one cos_le_one)+
qed

lemma hypot_polar: "hypot (cos t * rr) (sin t * rr) = \<bar>rr\<bar>"
proof -
  have "cos t * rr * (cos t * rr) + sin t * rr * (sin t * rr)
          = rr * rr * (cos t * cos t + sin t * sin t)"
    by (simp only: distrib_left ac_simps)
  also have "\<dots> = rr * rr" by (simp only: sin_cos_squared_add3 mult_1_right)
  finally have e: "cos t * rr * (cos t * rr) + sin t * rr * (sin t * rr) = rr * rr" .
  show ?thesis unfolding hypot_def e by simp
qed

lemma hypot_asteroidVertex:
  assumes "0 < sz"
  shows "hypot (fst (asteroidVertex seed sz i)) (snd (asteroidVertex seed sz i))
           = (sz / 2) * wobble seed ((real i / 18) * pi * 2)"
proof -
  have "0 < wobble seed ((real i / 18) * pi * 2)"
    using wobble_bounds [of seed "(real i / 18) * pi * 2"] by simp
  with assms have "0 \<le> (sz / 2) * wobble seed ((real i / 18) * pi * 2)" by simp
  then show ?thesis
    by (simp only: asteroidVertex_def Let_def fst_conv snd_conv hypot_polar abs_of_nonneg)
qed

lemma nth_generateAsteroidVertices:
  "i < 18 \<Longrightarrow> generateAsteroidVertices rnd sz ! i = asteroidVertex (rnd * pi * 2) sz i"
  by (simp add: generateAsteroidVertices_def Let_def del: upt_Suc)

lemma wobble_peak: "wobble (5 / 36 * pi * 2) ((real 10 / 18) * pi * 2) = 0.98 + 0.05 * (sqrt 2 / 2)"
proof -
  have a: "(real 10 / 18) * pi * 2 * 2 + 5 / 36 * pi * 2 = pi / 2 + 2 * pi" by simp
  have b: "(real 10 / 18) * pi * 2 * 3.2 + 5 / 36 * pi * 2 * 0.7 = (- (pi / 4) + 2 * pi) + 2 * pi"
    by simp
  have "sin (pi / 2 + 2 * pi) = 1" by (simp only: sin_periodic sin_pi_half)
  moreover have "cos ((- (pi / 4) + 2 * pi) + 2 * pi) = sqrt 2 / 2"
    by (simp only: cos_periodic cos_minus cos_45)
  ultimately show ?thesis
    unfolding wobble_def a b by simp
qed

lemma sqrt2_gt: "7 / 5 < sqrt 2"
  by (rule real_less_rsqrt) (simp add: power2_eq_square)

text \<open>
  C10. For every size above zero and every random value, each of the 18 vertices lies
  between \<open>0.81 * (size / 2)\<close> and \<open>1.03 * (size / 2)\<close> from the local origin. Some vertex
  does lie outside the collision circle: with \<open>Math.random() = 5 / 36\<close> vertex 10 is
  further than \<open>size / 2\<close> from the origin, and for size 2000 further than \<open>size / 2 + 12\<close>,
  the radius of the hit test.
\<close>

theorem silhouette_radius_bound:
  "(\<forall>sz > 0. \<forall>i < 18.
      0.81 * (sz / 2) \<le> hypot (fst (generateAsteroidVertices rnd sz ! i))
                               (snd (generateAsteroidVertices rnd sz ! i)) \<and>
      hypot (fst (generateAsteroidVertices rnd sz ! i))
            (snd (generateAsteroidVertices rnd sz ! i)) \<le> 1.03 * (sz / 2)) \<and>
   length (generateAsteroidVertices rnd sz) = 18 \<and>
   (\<forall>sz > 0. sz / 2 < hypot (fst (generateAsteroidVertices (5 / 36) sz ! 10))
                             (snd (generateAsteroidVertices (5 / 36) sz ! 10))) \<and>
   2000 / 2 + 12 < hypot (fst (generateAsteroidVertices (5 / 36) 2000 ! 10))
                         (snd (generateAsteroidVertices (5 / 36) 2000 ! 10))"
proof (intro conjI allI impI)
  fix sz :: real and i :: nat
  assume sz: "0 < sz" and i: "i < 18"
  have h: "hypot (fst (generateAsteroidVertices rnd sz ! i)) (snd (generateAsteroidVertices rnd sz ! i))
        = (sz / 2) * wobble (rnd * pi * 2) ((real i / 18) * pi * 2)"
    using i sz by (simp only: nth_generateAsteroidVertices hypot_asteroidVertex)
  from wobble_bounds [of "rnd * pi * 2" "(real i / 18) * pi * 2"] sz
  have "0.81 * (sz / 2) \<le> (sz / 2) * wobble (rnd * pi * 2) ((real i / 18) * pi * 2)"
    and "(sz / 2) * wobble (rnd * pi * 2) ((real i / 18) * pi * 2) \<le> 1.03 * (sz / 2)"
    by (simp_all add: mult.commute)
  with h show "0.81 * (sz / 2) \<le> hypot (fst (generateAsteroidVertices rnd sz ! i))
                               (snd (generateAsteroidVertices rnd sz ! i))"
    and "hypot (fst (generateAsteroidVertices rnd sz ! i))
            (snd (generateAsteroidVertices rnd sz ! i)) \<le> 1.03 * (sz / 2)"
    by simp_all
next
  show "length (generateAsteroidVertices rnd sz) = 18"
    by (simp add: generateAsteroidVertices_def Let_def del: upt_Suc)
next
  fix sz :: real
  assume sz: "0 < sz"
  have "hypot (fst (generateAsteroidVertices (5 / 36) sz ! 10)) (snd (generateAsteroidVertices (5 / 36) sz ! 10))
        = (sz / 2) * wobble (5 / 36 * pi * 2) ((real 10 / 18) * pi * 2)"
    using sz by (simp only: nth_generateAsteroidVertices hypot_asteroidVertex)
  also have "\<dots> = (sz / 2) * (0.98 + 0.05 * (sqrt 2 / 2))" by (simp only: wobble_peak)
  finally have h: "hypot (fst (generateAsteroidVertices (5 / 36) sz ! 10))
                         (snd (generateAsteroidVertices (5 / 36) sz ! 10))
                     = (sz / 2) * (0.98 + 0.05 * (sqrt 2 / 2))" .
  have k: "1 < 0.98 + 0.05 * (sqrt 2 / 2)" using sqrt2_gt by simp
  have "(sz / 2) * 1 < (sz / 2) * (0.98 + 0.05 * (sqrt 2 / 2))"
    using sz by (intro mult_strict_left_mono k) simp
  then show "sz / 2 < hypot (fst (generateAsteroidVertices (5 / 36) sz ! 10))
                             (snd (generateAsteroidVertices (5 / 36) sz ! 10))"
    unfolding h by simp
next
  have "hypot (fst (generateAsteroidVertices (5 / 36) 2000 ! 10)) (snd (generateAsteroidVertices (5 / 36) 2000 ! 10))
        = (2000 / 2) * wobble (5 / 36 * pi * 2) ((real 10 / 18) * pi * 2)"
    by (simp only: nth_generateAsteroidVertices hypot_asteroidVertex)
  also have "\<dots> = (2000 / 2) * (0.98 + 0.05 * (sqrt 2 / 2))" by (simp only: wobble_peak)
  finally show "2000 / 2 + 12 < hypot (fst (generateAsteroidVertices (5 / 36) 2000 ! 10))
                         (snd (generateAsteroidVertices (5 / 36) 2000 ! 10))"
    using sqrt2_gt by simp
qed

text \<open>Vertex 10 of a body of size 2000.\<close>

theorem silhouette_radius_bound_witness:
  "(0::real) < 2000 \<and> (10::nat) < 18 \<and>
   0.81 * (2000 / 2) \<le> hypot (fst (generateAsteroidVertices (5 / 36) 2000 ! 10))
                              (snd (generateAsteroidVertices (5 / 36) 2000 ! 10)) \<and>
   hypot (fst (generateAsteroidVertices (5 / 36) 2000 ! 10))
         (snd (generateAsteroidVertices (5 / 36) 2000 ! 10)) \<le> 1.03 * (2000 / 2)"
proof -
  have "\<forall>sz > 0. \<forall>i < 18.
      0.81 * (sz / 2) \<le> hypot (fst (generateAsteroidVertices (5 / 36) sz ! i))
                               (snd (generateAsteroidVertices (5 / 36) sz ! i)) \<and>
      hypot (fst (generateAsteroidVertices (5 / 36) sz ! i))
            (snd (generateAsteroidVertices (5 / 36) sz ! i)) \<le> 1.03 * (sz / 2)"
    using silhouette_radius_bound [of "5 / 36" 2000] by (rule conjunct1)
  then have "\<forall>i < 18.
      0.81 * (2000 / 2) \<le> hypot (fst (generateAsteroidVertices (5 / 36) 2000 ! i))
                               (snd (generateAsteroidVertices (5 / 36) 2000 ! i)) \<and>
      hypot (fst (generateAsteroidVertices (5 / 36) 2000 ! i))
            (snd (generateAsteroidVertices (5 / 36) 2000 ! i)) \<le> 1.03 * (2000 / 2)"
    by (elim allE [of _ "2000::real"]) simp
  then show ?thesis
    by (elim allE [of _ "10::nat"]) simp
qed

subsection \<open>Separating-axis test\<close>

lemma edges_4 [simp]: "edges [a, b, c, d] = [(a, b), (b, c), (c, d), (d, a)]"
  by (simp add: edges_def upt_rec)

lemma edges_5 [simp]: "edges [a, b, c, d, e] = [(a, b), (b, c), (c, d), (d, e), (e, a)]"
  by (simp add: edges_def upt_rec)

lemma normalize_axis [simp]:
  "c \<noteq> 0 \<Longrightarrow> normalize (0, c) = (0, sgn c)"
  "c \<noteq> 0 \<Longrightarrow> normalize (c, 0) = (sgn c, 0)"
  by (simp_all add: normalize_def Let_def sgn_real_def)

lemma hypot_eq: "0 \<le> c \<Longrightarrow> a * a + b * b = c * c \<Longrightarrow> hypot a b = c"
  by (simp add: hypot_def)

lemma normalize_roof [simp]:
  "normalize (105, 140) = (3 / 5, 4 / 5)"
  "normalize (- 105, 140) = (- 3 / 5, 4 / 5)"
proof -
  have "hypot 105 140 = 175" "hypot (- 105) 140 = 175"
    by (rule hypot_eq; simp)+
  then show "normalize (105, 140) = (3 / 5, 4 / 5)"
    "normalize (- 105, 140) = (- 3 / 5, 4 / 5)"
    by (simp_all add: normalize_def)
qed

lemma satMTV_unitSquares:
  assumes "\<bar>d\<bar> < 1"
  shows "satMTV (unitSquare cx cy) (unitSquare (cx + d) cy)
           = Inr (Some \<lparr> mtv_nx = sgn d, mtv_ny = (if d = 0 then 1 else 0), mtv_overlap = 1 - \<bar>d\<bar> \<rparr>)"
  using assms
  by (auto simp add: satMTV_def testAxesFrom_def unitSquare_def dot_def centroid_def sgn_real_def)

lemma satMTV_unitSquares_rev:
  assumes "\<bar>d\<bar> < 1"
  shows "satMTV (rev (unitSquare cx cy)) (rev (unitSquare (cx + d) cy))
           = Inr (Some \<lparr> mtv_nx = sgn d, mtv_ny = (if d = 0 then 1 else 0), mtv_overlap = 1 - \<bar>d\<bar> \<rparr>)"
  using assms
  by (auto simp add: satMTV_def testAxesFrom_def unitSquare_def dot_def centroid_def sgn_real_def)

lemma satMTV_axis_direction:
  assumes "satMTV A B = Inr (Some m)"
  shows "0 \<le> dot (fst (centroid B) - fst (centroid A), snd (centroid B) - snd (centroid A))
                   (mtv_nx m, mtv_ny m)"
  using assms
  by (auto simp: satMTV_def Let_def dot_def split: sum.splits prod.splits if_splits option.splits)






lemma testAxes_Cons:
  "testAxes A B ((p1, p2) # es) best =
     (case projectPoly A (edgeAxis p1 p2) of
        Inl e \<Rightarrow> Inl e
      | Inr pA \<Rightarrow>
         (case projectPoly B (edgeAxis p1 p2) of
            Inl e \<Rightarrow> Inl e
          | Inr pB \<Rightarrow>
              if axisOverlap pA pB \<le> 0 then Inr (True, best)
              else testAxes A B es (better best (axisOverlap pA pB) (edgeAxis p1 p2))))"
  by (simp only: testAxes.simps Let_def fst_conv snd_conv edgeAxis_def axisOverlap_def better_def)



lemma listings_unitSquare:
  "listings (unitSquare cx cy) =
     [[(cx - 1 / 2, cy - 1 / 2), (cx + 1 / 2, cy - 1 / 2), (cx + 1 / 2, cy + 1 / 2), (cx - 1 / 2, cy + 1 / 2)],
      [(cx - 1 / 2, cy + 1 / 2), (cx + 1 / 2, cy + 1 / 2), (cx + 1 / 2, cy - 1 / 2), (cx - 1 / 2, cy - 1 / 2)],
      [(cx + 1 / 2, cy - 1 / 2), (cx + 1 / 2, cy + 1 / 2), (cx - 1 / 2, cy + 1 / 2), (cx - 1 / 2, cy - 1 / 2)],
      [(cx + 1 / 2, cy + 1 / 2), (cx + 1 / 2, cy - 1 / 2), (cx - 1 / 2, cy - 1 / 2), (cx - 1 / 2, cy + 1 / 2)],
      [(cx + 1 / 2, cy + 1 / 2), (cx - 1 / 2, cy + 1 / 2), (cx - 1 / 2, cy - 1 / 2), (cx + 1 / 2, cy - 1 / 2)],
      [(cx + 1 / 2, cy - 1 / 2), (cx - 1 / 2, cy - 1 / 2), (cx - 1 / 2, cy + 1 / 2), (cx + 1 / 2, cy + 1 / 2)],
      [(cx - 1 / 2, cy + 1 / 2), (cx - 1 / 2, cy - 1 / 2), (cx + 1 / 2, cy - 1 / 2), (cx + 1 / 2, cy + 1 / 2)],
      [(cx - 1 / 2, cy - 1 / 2), (cx - 1 / 2, cy + 1 / 2), (cx + 1 / 2, cy + 1 / 2), (cx + 1 / 2, cy - 1 / 2)]]"
  by (simp add: listings_def unitSquare_def upt_rec numeral_eq_Suc rotate1_def rotate_def)

lemma listing_proj:
  "\<forall>P \<in> set (listings (unitSquare cx cy)). sqProj P cx cy"
  by (simp add: listings_unitSquare sqProj_def dot_def Let_def)

lemma listing_centroid:
  "\<forall>P \<in> set (listings (unitSquare cx cy)). centroid P = (cx, cy)"
  by (simp add: listings_unitSquare centroid_def)

lemma listing_axes:
  "\<forall>P \<in> set (listings (unitSquare cx cy)). sqAxes (edges P) \<and> sqAxesX (edges P)"
  by (simp add: listings_unitSquare sqAxes_def sqAxesX_def edgeAxis_def)

lemma testAxes_step:
  assumes "projectPoly A (edgeAxis p1 p2) = Inr pA" "projectPoly B (edgeAxis p1 p2) = Inr pB"
      and "axisOverlap pA pB = ov" "0 < ov"
  shows "testAxes A B ((p1, p2) # es) best = testAxes A B es (better best ov (edgeAxis p1 p2))"
  unfolding testAxes_Cons using assms by simp

lemma sq_overlap_x:
  assumes "sqProj P cx cy" "sqProj Q (cx + d) cy" "\<bar>d\<bar> < 1" "ax = (1, 0) \<or> ax = (- 1, 0)"
  shows "\<exists>pA pB. projectPoly P ax = Inr pA \<and> projectPoly Q ax = Inr pB \<and>
                 axisOverlap pA pB = 1 - \<bar>d\<bar>"
  using assms by (auto simp: sqProj_def axisOverlap_def)

lemma sq_overlap_y:
  assumes "sqProj P cx cy" "sqProj Q (cx + d) cy" "ax = (0, 1) \<or> ax = (0, - 1)"
  shows "\<exists>pA pB. projectPoly P ax = Inr pA \<and> projectPoly Q ax = Inr pB \<and>
                 axisOverlap pA pB = 1"
  using assms by (auto simp: sqProj_def axisOverlap_def)

lemma testAxes_squares:
  assumes d: "0 < \<bar>d\<bar>" "\<bar>d\<bar> < 1"
      and pA: "sqProj P cx cy" and pB: "sqProj Q (cx + d) cy"
      and es: "sqAxes es" and best: "sqBest d best"
  shows "\<exists>best'. testAxes P Q es best = Inr (False, best') \<and> sqBest d best' \<and>
                  (sqBestX d best \<or> sqAxesX es \<longrightarrow> sqBestX d best')"
  using es best
proof (induction es arbitrary: best)
  case Nil
  then show ?case by (simp add: sqAxesX_def)
next
  case (Cons e es)
  obtain p1 p2 where e: "e = (p1, p2)" by (cases e)
  from Cons.prems(1) have rest: "sqAxes es" by (simp add: sqAxes_def)
  from Cons.prems(1) e consider
    (x) "edgeAxis p1 p2 = (1, 0) \<or> edgeAxis p1 p2 = (- 1, 0)" |
    (y) "edgeAxis p1 p2 = (0, 1) \<or> edgeAxis p1 p2 = (0, - 1)"
    by (auto simp: sqAxes_def)
  then show ?case
  proof cases
    case x
    from sq_overlap_x [OF pA pB d(2) x] obtain prA prB where
      pr: "projectPoly P (edgeAxis p1 p2) = Inr prA" "projectPoly Q (edgeAxis p1 p2) = Inr prB"
          "axisOverlap prA prB = 1 - \<bar>d\<bar>"
      by blast
    from d have pos: "0 < 1 - \<bar>d\<bar>" by simp
    have step: "testAxes P Q (e # es) best
                  = testAxes P Q es (better best (1 - \<bar>d\<bar>) (edgeAxis p1 p2))"
      unfolding e by (rule testAxes_step [OF pr pos])
    have b: "sqBest d (better best (1 - \<bar>d\<bar>) (edgeAxis p1 p2))"
      and bx: "sqBestX d (better best (1 - \<bar>d\<bar>) (edgeAxis p1 p2))"
      using x Cons.prems(2) d
      by (auto simp: sqBest_def sqBestX_def better_def split: option.splits)
    from Cons.IH [OF rest b] bx show ?thesis unfolding step by auto
  next
    case y
    from sq_overlap_y [OF pA pB y] obtain prA prB where
      pr: "projectPoly P (edgeAxis p1 p2) = Inr prA" "projectPoly Q (edgeAxis p1 p2) = Inr prB"
          "axisOverlap prA prB = 1"
      by blast
    have step: "testAxes P Q (e # es) best
                  = testAxes P Q es (better best 1 (edgeAxis p1 p2))"
      unfolding e by (rule testAxes_step [OF pr zero_less_one])
    have b: "sqBest d (better best 1 (edgeAxis p1 p2))"
      using y Cons.prems(2) d
      by (auto simp: sqBest_def better_def split: option.splits)
    have bx: "sqBestX d best \<Longrightarrow> sqBestX d (better best 1 (edgeAxis p1 p2))"
      using d by (auto simp: sqBestX_def better_def)
    have ex: "sqAxesX (e # es) \<Longrightarrow> sqAxesX es"
      using y unfolding e sqAxesX_def by auto
    from Cons.IH [OF rest b] bx ex show ?thesis unfolding step by blast
  qed
qed

lemma satMTV_square_listings:
  assumes d: "0 < \<bar>d\<bar>" "\<bar>d\<bar> < 1"
      and P: "P \<in> set (listings (unitSquare cx cy))"
      and Q: "Q \<in> set (listings (unitSquare (cx + d) cy))"
  shows "satMTV P Q = Inr (Some \<lparr> mtv_nx = sgn d, mtv_ny = 0, mtv_overlap = 1 - \<bar>d\<bar> \<rparr>)"
proof -
  from P Q have pA: "sqProj P cx cy" and pB: "sqProj Q (cx + d) cy"
    using listing_proj by blast+
  from P Q have aP: "sqAxes (edges P)" and aQ: "sqAxes (edges Q)" and xQ: "sqAxesX (edges Q)"
    using listing_axes by blast+
  from P Q have cP: "centroid P = (cx, cy)" and cQ: "centroid Q = (cx + d, cy)"
    using listing_centroid by blast+
  have n: "sqBest d None" by (simp add: sqBest_def)
  from testAxes_squares [OF d pA pB aP n] obtain best1 where
    t1: "testAxes P Q (edges P) None = Inr (False, best1)" and b1: "sqBest d best1"
    by blast
  from testAxes_squares [OF d pA pB aQ b1] xQ obtain best2 where
    t2: "testAxes P Q (edges Q) best1 = Inr (False, best2)" and b2: "sqBestX d best2"
    by blast
  from b2 consider "best2 = Some (1 - \<bar>d\<bar>, (1, 0))" | "best2 = Some (1 - \<bar>d\<bar>, (- 1, 0))"
    unfolding sqBestX_def by blast
  then show ?thesis
    using d by cases (simp_all add: satMTV_def testAxesFrom_def t1 t2 cP cQ dot_def sgn_real_def)
qed

lemma foldl_sum:
  "foldl (\<lambda>(sx, sy) p. (sx + fst p, sy + snd p)) (a, b) poly
     = (a + sum_list (map fst poly), b + sum_list (map snd poly))"
  by (induction poly arbitrary: a b) (simp_all add: add.assoc)

lemma centroid_mean:
  "centroid poly = (sum_list (map fst poly) / real (length poly),
                    sum_list (map snd poly) / real (length poly))"
  by (simp add: centroid_def foldl_sum)

text \<open>
  C4. Whenever \<open>satMTV\<close> returns a result, the returned axis has a non-negative dot
  product with the vector from the mean of the vertices of A to the mean of the vertices
  of B. For the unit square at \<open>(cx, cy)\<close> and the unit square at \<open>(cx + d, cy)\<close> with
  \<open>0 < |d| < 1\<close>, each listed from any of its corners in either winding, \<open>satMTV\<close>
  returns the axis \<open>(sgn d, 0)\<close> with the overlap \<open>1 - |d|\<close>: the sign of the X component
  is the sign of the X offset of B from A. With both squares listed from the same corner
  in the same winding (either one), the signs also agree for \<open>d = 0\<close>.
\<close>

theorem satMTV_direction:
  "(\<forall>m. satMTV A B = Inr (Some m) \<longrightarrow>
        0 \<le> mtv_nx m * (sum_list (map fst B) / real (length B)
                          - sum_list (map fst A) / real (length A))
            + mtv_ny m * (sum_list (map snd B) / real (length B)
                          - sum_list (map snd A) / real (length A))) \<and>
   (0 < \<bar>d\<bar> \<and> \<bar>d\<bar> < 1 \<longrightarrow>
      (\<forall>P \<in> set (listings (unitSquare cx cy)). \<forall>Q \<in> set (listings (unitSquare (cx + d) cy)).
         satMTV P Q = Inr (Some \<lparr> mtv_nx = sgn d, mtv_ny = 0, mtv_overlap = 1 - \<bar>d\<bar> \<rparr>))) \<and>
   (\<bar>d\<bar> < 1 \<longrightarrow>
      (\<exists>m. satMTV (unitSquare cx cy) (unitSquare (cx + d) cy) = Inr (Some m) \<and>
           sgn (mtv_nx m) = sgn d) \<and>
      (\<exists>m. satMTV (rev (unitSquare cx cy)) (rev (unitSquare (cx + d) cy)) = Inr (Some m) \<and>
           sgn (mtv_nx m) = sgn d))"
proof (intro conjI allI impI ballI)
  fix m assume "satMTV A B = Inr (Some m)"
  from satMTV_axis_direction [OF this]
  show "0 \<le> mtv_nx m * (sum_list (map fst B) / real (length B)
                          - sum_list (map fst A) / real (length A))
            + mtv_ny m * (sum_list (map snd B) / real (length B)
                          - sum_list (map snd A) / real (length A))"
    by (simp add: centroid_mean dot_def mult.commute)
next
  fix P Q
  assume "0 < \<bar>d\<bar> \<and> \<bar>d\<bar> < 1" "P \<in> set (listings (unitSquare cx cy))"
    "Q \<in> set (listings (unitSquare (cx + d) cy))"
  then show "satMTV P Q = Inr (Some \<lparr> mtv_nx = sgn d, mtv_ny = 0, mtv_overlap = 1 - \<bar>d\<bar> \<rparr>)"
    by (simp add: satMTV_square_listings)
next
  assume d: "\<bar>d\<bar> < 1"
  show "\<exists>m. satMTV (unitSquare cx cy) (unitSquare (cx + d) cy) = Inr (Some m) \<and>
           sgn (mtv_nx m) = sgn d"
    unfolding satMTV_unitSquares [OF d] by simp
next
  assume d: "\<bar>d\<bar> < 1"
  show "\<exists>m. satMTV (rev (unitSquare cx cy)) (rev (unitSquare (cx + d) cy)) = Inr (Some m) \<and>
           sgn (mtv_nx m) = sgn d"
    unfolding satMTV_unitSquares_rev [OF d] by simp
qed

text \<open>
  The unit square at \<open>(1 / 2, 0)\<close>, listed counter-clockwise from its lower left corner,
  and the unit square at \<open>(0, 0)\<close>, listed clockwise from its upper right corner: the
  axis is \<open>(- 1, 0)\<close>, the overlap a half.
\<close>

theorem satMTV_direction_witness:
  "0 < \<bar>- 1 / 2 :: real\<bar> \<and> \<bar>- 1 / 2 :: real\<bar> < 1 \<and>
   [(0, - 1 / 2), (1, - 1 / 2), (1, 1 / 2), (0, 1 / 2)] \<in> set (listings (unitSquare (1 / 2) 0)) \<and>
   [(1 / 2, 1 / 2), (1 / 2, - 1 / 2), (- 1 / 2, - 1 / 2), (- 1 / 2, 1 / 2)]
     \<in> set (listings (unitSquare (1 / 2 + (- 1 / 2)) 0)) \<and>
   satMTV [(0, - 1 / 2), (1, - 1 / 2), (1, 1 / 2), (0, 1 / 2)]
          [(1 / 2, 1 / 2), (1 / 2, - 1 / 2), (- 1 / 2, - 1 / 2), (- 1 / 2, 1 / 2)]
     = Inr (Some \<lparr> mtv_nx = - 1, mtv_ny = 0, mtv_overlap = 1 / 2 \<rparr>) \<and>
   0 \<le> (- 1) * (sum_list (map fst [(1 / 2, 1 / 2), (1 / 2, - 1 / 2), (- 1 / 2, - 1 / 2), (- 1 / 2, 1 / 2 :: real)]) / 4
                 - sum_list (map fst [(0, - 1 / 2), (1, - 1 / 2), (1, 1 / 2), (0, 1 / 2 :: real)]) / 4 :: real)"
proof -
  let ?P = "[(0, - 1 / 2), (1, - 1 / 2), (1, 1 / 2), (0 :: real, 1 / 2 :: real)]"
  let ?Q = "[(1 / 2, 1 / 2), (1 / 2, - 1 / 2), (- 1 / 2, - 1 / 2), (- 1 / 2 :: real, 1 / 2 :: real)]"
  have P: "?P \<in> set (listings (unitSquare (1 / 2) 0))"
    by (simp add: listings_unitSquare)
  have Q: "?Q \<in> set (listings (unitSquare (1 / 2 + (- 1 / 2)) 0))"
    by (simp add: listings_unitSquare)
  have d: "0 < \<bar>- 1 / 2 :: real\<bar> \<and> \<bar>- 1 / 2 :: real\<bar> < 1" by simp
  note t = satMTV_direction [of ?P ?Q "- 1 / 2" "1 / 2" 0]
  from t d P Q have s: "satMTV ?P ?Q = Inr (Some \<lparr> mtv_nx = sgn (- 1 / 2), mtv_ny = 0,
                                                    mtv_overlap = 1 - \<bar>- 1 / 2\<bar> \<rparr>)"
    by blast
  then have s': "satMTV ?P ?Q = Inr (Some \<lparr> mtv_nx = - 1, mtv_ny = 0, mtv_overlap = 1 / 2 \<rparr>)"
    by simp
  from t s' have "0 \<le> mtv_nx \<lparr> mtv_nx = - 1, mtv_ny = 0, mtv_overlap = 1 / 2 \<rparr>
                       * (sum_list (map fst ?Q) / real (length ?Q) - sum_list (map fst ?P) / real (length ?P))
                     + mtv_ny \<lparr> mtv_nx = - 1, mtv_ny = 0, mtv_overlap = 1 / 2 \<rparr>
                       * (sum_list (map snd ?Q) / real (length ?Q) - sum_list (map snd ?P) / real (length ?P))"
    by blast
  with P Q s' show ?thesis by simp
qed

subsection \<open>The merged collider of the concrete body\<close>

lemma poly_body:
  assumes "1024 \<le> iw"
  shows "asteroidWorldPoly iw (body x y dx dy) =
     [(x - 140, y + 123 / 2), (x, y - 87 / 2), (x + 140, y + 123 / 2), (x + 140, y + 211 / 2),
      (x - 140, y + 211 / 2)]"
  using assms
  by (simp add: asteroidWorldPoly_def Let_def getLabelRect_def getLabelDims_def LABEL_GAP_def
      LABEL_W_DESKTOP_def LABEL_H_DESKTOP_def
      rockDiamond_def convexHull_def sortPts_def cmpPt_def halfHull_def cross_def)

lemma pairs_1 [simp]: "pairs (Suc 0) = []"
  by (simp add: pairs_def)

lemma pairs_2 [simp]: "pairs (Suc (Suc 0)) = [(0, 1)]"
  by (simp add: pairs_def upt_rec)

lemma pairs_3 [simp]: "pairs (Suc (Suc (Suc 0))) = [(0, 1), (0, 2), (1, 2)]"
  by (simp add: pairs_def upt_rec)

lemma Let_fraction:
  "Let (numeral a / numeral b :: real) f = f (numeral a / numeral b)"
  "Let (- (numeral a / numeral b) :: real) f = f (- (numeral a / numeral b))"
  by (simp_all add: Let_def)












subsection \<open>Fixed point\<close>

lemma set_pairs: "(i, j) \<in> set (pairs n) \<longleftrightarrow> i < j \<and> j < n"
  by (auto simp: pairs_def intro!: bexI [of _ i])

lemma pairLoop_separated:
  assumes "\<forall>(i, j) \<in> set ps. satMTV (asteroidWorldPoly iw (as ! i)) (asteroidWorldPoly iw (as ! j)) = Inr None"
  shows "pairLoop iw ps as = Inr as"
  using assms
proof (induction ps)
  case Nil
  then show ?case by simp
next
  case (Cons p ps)
  obtain i j where p: "p = (i, j)" by (cases p)
  from Cons.prems p
  have "satMTV (asteroidWorldPoly iw (as ! i)) (asteroidWorldPoly iw (as ! j)) = Inr None"
    by simp
  moreover from Cons have "pairLoop iw ps as = Inr as" by simp
  ultimately show ?case using p by simp
qed

lemma clampAll_fixed:
  assumes "\<forall>a \<in> set as. inBounds iw a w h"
  shows "clampAll iw w h as = as"
  unfolding clampAll_def using assms by (intro map_idI) (simp add: clamp_fixed)

text \<open>
  C6. When every pair of merged colliders is separated (\<open>satMTV\<close> returns none) and every
  body is within its clamp bounds, a resolution of any number of iterations returns the
  bodies as they were: no position and no drift changes at all.
\<close>

theorem resolveOverlaps_fixed_point:
  assumes "\<forall>i < length as. \<forall>j < length as. i < j \<longrightarrow>
             satMTV (asteroidWorldPoly iw (as ! i)) (asteroidWorldPoly iw (as ! j)) = Inr None"
      and "\<forall>a \<in> set as. inBounds iw a w h"
  shows "resolveOverlaps iw as w h n = Inr as"
proof (induction n)
  case 0
  show ?case by simp
next
  case (Suc n)
  have "pairLoop iw (pairs (length as)) as = Inr as"
    using assms(1) by (intro pairLoop_separated) (auto simp: set_pairs)
  with Suc clampAll_fixed [OF assms(2)] show ?case by simp
qed

lemma sat_far:
  "satMTV (asteroidWorldPoly 1200 (body 300 300 dx dy))
          (asteroidWorldPoly 1200 (body 800 300 dx' dy')) = Inr None"
  by (simp add: poly_body satMTV_def testAxesFrom_def dot_def centroid_def Let_fraction)

text \<open>Two drifting bodies 500 apart in a viewport of 1200 by 700, two iterations.\<close>

theorem resolveOverlaps_fixed_point_witness:
  "satMTV (asteroidWorldPoly 1200 (body 300 300 (1 / 10) 0))
          (asteroidWorldPoly 1200 (body 800 300 0 (- 1 / 10))) = Inr None \<and>
   inBounds 1200 (body 300 300 (1 / 10) 0) 1200 700 \<and>
   inBounds 1200 (body 800 300 0 (- 1 / 10)) 1200 700 \<and>
   resolveOverlaps 1200 [body 300 300 (1 / 10) 0, body 800 300 0 (- 1 / 10)] 1200 700 2
     = Inr [body 300 300 (1 / 10) 0, body 800 300 0 (- 1 / 10)]"
proof -
  let ?as = "[body 300 300 (1 / 10) 0, body 800 300 0 (- 1 / 10)]"
  have sep: "\<forall>i < length ?as. \<forall>j < length ?as. i < j \<longrightarrow>
             satMTV (asteroidWorldPoly 1200 (?as ! i)) (asteroidWorldPoly 1200 (?as ! j)) = Inr None"
  proof (intro allI impI)
    fix i j assume "i < length ?as" "j < length ?as" "i < j"
    then have "i = 0 \<and> j = 1" by simp
    then show "satMTV (asteroidWorldPoly 1200 (?as ! i)) (asteroidWorldPoly 1200 (?as ! j)) = Inr None"
      by (simp add: sat_far)
  qed
  have inb: "\<forall>a \<in> set ?as. inBounds 1200 a 1200 700"
    by (simp add: inBounds_def)
  from resolveOverlaps_fixed_point [OF sep inb, of 2] inb show ?thesis
    by (simp add: sat_far)
qed

subsection \<open>Overlap after a pass\<close>

lemma cross_shift [simp]: "cross (shift t a) (shift t b) (shift t c) = cross a b c"
  by (simp add: cross_def shift_def)

lemma cmpPt_shift [simp]: "cmpPt (shift t a) (shift t b) = cmpPt a b"
  by (simp add: cmpPt_def shift_def)

















lemma edgeAxis_shift [simp]: "edgeAxis (shift t p1) (shift t p2) = edgeAxis p1 p2"
  by (simp add: edgeAxis_def shift_def)















text \<open>
  The condition on the extents is needed. A body of radius 43.5 and one of radius 15 at
  the same place: along the MTV normal \<open>(0, - 1)\<close> the extent of the smaller collider, 92
  high, lies within that of the larger, the first ends 120.5 beyond the start of the
  second, and after the correction by \<open>92 + 0.25\<close> the two colliders still overlap, by
  28.25.
\<close>

lemma normalize_pebble_roof [simp]:
  "normalize (48, 140) = (12 / 37, 35 / 37)"
  "normalize (- 48, 140) = (- 12 / 37, 35 / 37)"
proof -
  have "hypot 48 140 = 148" "hypot (- 48) 140 = 148"
    by (rule hypot_eq; simp)+
  then show "normalize (48, 140) = (12 / 37, 35 / 37)"
    "normalize (- 48, 140) = (- 12 / 37, 35 / 37)"
    by (simp_all add: normalize_def)
qed

lemma poly_pebble:
  assumes "1024 \<le> iw"
  shows "asteroidWorldPoly iw (pebble x y) =
     [(x - 140, y + 33), (x, y - 15), (x + 140, y + 33), (x + 140, y + 77), (x - 140, y + 77)]"
  using assms
  by (simp add: asteroidWorldPoly_def Let_def getLabelRect_def getLabelDims_def LABEL_GAP_def
      LABEL_W_DESKTOP_def LABEL_H_DESKTOP_def pebble_def
      pebbleDiamond_def convexHull_def sortPts_def cmpPt_def halfHull_def cross_def)

lemma resolvePair_body_pebble:
  "resolvePair \<lparr> mtv_nx = 0, mtv_ny = - 1, mtv_overlap = ov \<rparr> (body x1 y1 0 0) (pebble x2 y2)
     = (body x1 (y1 + (ov + 1 / 4) / 2) 0 0, pebble x2 (y2 - (ov + 1 / 4) / 2))"
  by (simp add: resolvePair_def body_def pebble_def Let_def field_simps)

lemma sat_nested_0:
  "satMTV (asteroidWorldPoly 1200 (body 600 300 0 0)) (asteroidWorldPoly 1200 (pebble 600 300))
     = Inr (Some \<lparr> mtv_nx = 0, mtv_ny = - 1, mtv_overlap = 92 \<rparr>)"
  by (simp add: poly_body poly_pebble satMTV_def testAxesFrom_def dot_def centroid_def Let_fraction)

lemma sat_nested_1:
  "satMTV (asteroidWorldPoly 1200 (body 600 (2769 / 8) 0 0))
          (asteroidWorldPoly 1200 (pebble 600 (2031 / 8)))
     = Inr (Some \<lparr> mtv_nx = 0, mtv_ny = - 1, mtv_overlap = 113 / 4 \<rparr>)"
  by (simp add: poly_body poly_pebble satMTV_def testAxesFrom_def dot_def centroid_def Let_fraction)

lemma pair_correction_nested:
  "satMTV (asteroidWorldPoly 1200 (body 600 300 0 0)) (asteroidWorldPoly 1200 (pebble 600 300))
     = Inr (Some \<lparr> mtv_nx = 0, mtv_ny = - 1, mtv_overlap = 92 \<rparr>) \<and>
   projectPoly (asteroidWorldPoly 1200 (body 600 300 0 0)) (0, - 1) = Inr (- (811 / 2), - (513 / 2)) \<and>
   projectPoly (asteroidWorldPoly 1200 (pebble 600 300)) (0, - 1) = Inr (- 377, - 285) \<and>
   \<not> (- (513 / 2) - (- 377) \<le> (92 + 0.25 :: real)) \<and>
   pairLoop 1200 [(0, 1)] [body 600 300 0 0, pebble 600 300]
     = Inr [body 600 (2769 / 8) 0 0, pebble 600 (2031 / 8)] \<and>
   satMTV (asteroidWorldPoly 1200 (body 600 (2769 / 8) 0 0))
          (asteroidWorldPoly 1200 (pebble 600 (2031 / 8)))
     = Inr (Some \<lparr> mtv_nx = 0, mtv_ny = - 1, mtv_overlap = 113 / 4 \<rparr>)"
  by (simp add: sat_nested_0 sat_nested_1 resolvePair_body_pebble)
    (simp add: poly_body poly_pebble dot_def Let_def)


subsection \<open>Convex hull\<close>

lemma turn_trans:
  fixes u1 u2 v1 v2 w1 w2 :: real
  assumes u: "0 \<le> u1"
      and v: "0 < v1 \<or> (v1 = 0 \<and> 0 < v2)"
      and w: "0 < w1 \<or> (w1 = 0 \<and> 0 < w2)"
      and uv: "0 \<le> u1 * v2 - u2 * v1"
      and vw: "0 \<le> v1 * w2 - v2 * w1"
  shows "0 \<le> u1 * w2 - u2 * w1"
proof (cases "0 < v1")
  case True
  from w have w1: "0 \<le> w1" by auto
  have "(u1 * w2 - u2 * w1) * v1 = (u1 * v2 - u2 * v1) * w1 + (v1 * w2 - v2 * w1) * u1"
    by (simp add: algebra_simps)
  also have "0 \<le> \<dots>"
    using uv vw u w1 by (intro add_nonneg_nonneg mult_nonneg_nonneg)
  finally have "0 \<le> (u1 * w2 - u2 * w1) * v1" .
  with True show ?thesis by (simp add: zero_le_mult_iff)
next
  case False
  with v have v1: "v1 = 0" and v2: "0 < v2" by auto
  from vw v1 have "v2 * w1 \<le> 0" by simp
  with v2 have "w1 \<le> 0" by (simp add: mult_le_0_iff)
  with w have w1: "w1 = 0" and w2: "0 < w2" by auto
  from u w2 have "0 \<le> u1 * w2" by simp
  with w1 show ?thesis by simp
qed

lemma lexLess_diff: "lexLess a b \<longleftrightarrow> 0 < fst b - fst a \<or> (fst b - fst a = 0 \<and> 0 < snd b - snd a)"
  by (auto simp: lexLess_def)

text \<open>a < b, b < c, b < d: c left of ab, d left of bc, then d left of ab.\<close>

lemma cross_chain_extend:
  assumes "lexLess a b" "lexLess b c" "lexLess b d" "0 \<le> cross a b c" "0 \<le> cross b c d"
  shows "0 \<le> cross a b d"
proof -
  have "0 \<le> (fst b - fst a) * (snd d - snd b) - (snd b - snd a) * (fst d - fst b)"
  proof (rule turn_trans [where ?v1.0 = "fst c - fst b" and ?v2.0 = "snd c - snd b"])
    show "0 \<le> fst b - fst a" using assms(1) by (auto simp: lexLess_def)
    show "0 < fst c - fst b \<or> (fst c - fst b = 0 \<and> 0 < snd c - snd b)"
      using assms(2) by (simp only: lexLess_diff)
    show "0 < fst d - fst b \<or> (fst d - fst b = 0 \<and> 0 < snd d - snd b)"
      using assms(3) by (simp only: lexLess_diff)
    show "0 \<le> (fst b - fst a) * (snd c - snd b) - (snd b - snd a) * (fst c - fst b)"
      using assms(4) by (simp add: cross_def algebra_simps)
    show "0 \<le> (fst c - fst b) * (snd d - snd b) - (snd c - snd b) * (fst d - fst b)"
      using assms(5) by (simp add: cross_def algebra_simps)
  qed
  then show ?thesis by (simp add: cross_def algebra_simps)
qed

text \<open>t < f, t < p, t < q: p right of (or on) tf, q left of (or on) tf, then q left of tp.\<close>

lemma cross_fan:
  assumes "lexLess t f" "lexLess t p" "lexLess t q" "cross t f p \<le> 0" "0 \<le> cross t f q"
  shows "0 \<le> cross t p q"
proof -
  have "0 \<le> (fst p - fst t) * (snd q - snd t) - (snd p - snd t) * (fst q - fst t)"
  proof (rule turn_trans [where ?v1.0 = "fst f - fst t" and ?v2.0 = "snd f - snd t"])
    show "0 \<le> fst p - fst t" using assms(2) by (auto simp: lexLess_def)
    show "0 < fst f - fst t \<or> (fst f - fst t = 0 \<and> 0 < snd f - snd t)"
      using assms(1) by (simp only: lexLess_diff)
    show "0 < fst q - fst t \<or> (fst q - fst t = 0 \<and> 0 < snd q - snd t)"
      using assms(3) by (simp only: lexLess_diff)
    show "0 \<le> (fst p - fst t) * (snd f - snd t) - (snd p - snd t) * (fst f - fst t)"
      using assms(4) by (simp add: cross_def algebra_simps)
    show "0 \<le> (fst f - fst t) * (snd q - snd t) - (snd f - snd t) * (fst q - fst t)"
      using assms(5) by (simp add: cross_def algebra_simps)
  qed
  then show ?thesis by (simp add: cross_def)
qed

text \<open>a < t, t < p, q < t: p left of at, q left of (or on) at, then q left of tp.\<close>

lemma cross_back:
  assumes "lexLess a t" "lexLess t p" "lexLess q t" "0 \<le> cross a t p" "0 \<le> cross a t q"
  shows "0 \<le> cross t p q"
proof -
  have "0 \<le> (fst t - fst q) * (snd p - snd t) - (snd t - snd q) * (fst p - fst t)"
  proof (rule turn_trans [where ?v1.0 = "fst t - fst a" and ?v2.0 = "snd t - snd a"])
    show "0 \<le> fst t - fst q" using assms(3) by (auto simp: lexLess_def)
    show "0 < fst t - fst a \<or> (fst t - fst a = 0 \<and> 0 < snd t - snd a)"
      using assms(1) by (simp only: lexLess_diff)
    show "0 < fst p - fst t \<or> (fst p - fst t = 0 \<and> 0 < snd p - snd t)"
      using assms(2) by (simp only: lexLess_diff)
    show "0 \<le> (fst t - fst q) * (snd t - snd a) - (snd t - snd q) * (fst t - fst a)"
      using assms(5) by (simp add: cross_def algebra_simps)
    show "0 \<le> (fst t - fst a) * (snd p - snd t) - (snd t - snd a) * (fst p - fst t)"
      using assms(4) by (simp add: cross_def algebra_simps)
  qed
  then show ?thesis by (simp add: cross_def algebra_simps)
qed

lemma lexLess_irrefl [simp]: "\<not> lexLess a a"
  by (simp add: lexLess_def)

lemma lexLess_asym: "lexLess a b \<Longrightarrow> \<not> lexLess b a"
  by (auto simp: lexLess_def)

lemma lexLess_trans: "lexLess a b \<Longrightarrow> lexLess b c \<Longrightarrow> lexLess a c"
  by (auto simp: lexLess_def)

lemma lexLess_total: "a = b \<or> lexLess a b \<or> lexLess b a"
  by (cases a, cases b) (auto simp: lexLess_def)

lemma cross_same [simp]: "cross a b b = 0" "cross a b a = 0" "cross a a b = 0"
  by (simp_all add: cross_def)

lemma popTurns_split:
  assumes "st \<noteq> []"
  shows "\<exists>pre t rest. st = pre @ t # rest \<and> popTurns st pt = t # rest \<and>
           (rest = [] \<or> 0 < cross (hd rest) t pt) \<and>
           (pre = [] \<or> cross t (last pre) pt \<le> 0)"
  using assms
proof (induction st rule: induct_list012)
  case 1
  then show ?case by simp
next
  case (2 v)
  have "[v] = [] @ v # []" by simp
  moreover have "popTurns [v] pt = v # []" by simp
  ultimately show ?case by blast
next
  case (3 b a rest)
  show ?case
  proof (cases "cross a b pt \<le> 0")
    case True
    from "3.IH"(2)
    have "\<exists>pre t rest'. a # rest = pre @ t # rest' \<and> popTurns (a # rest) pt = t # rest' \<and>
            (rest' = [] \<or> 0 < cross (hd rest') t pt) \<and>
            (pre = [] \<or> cross t (last pre) pt \<le> 0)"
      by simp
    then obtain pre t rest' where
      s: "a # rest = pre @ t # rest'" and p: "popTurns (a # rest) pt = t # rest'" and
      e: "rest' = [] \<or> 0 < cross (hd rest') t pt" and
      l: "pre = [] \<or> cross t (last pre) pt \<le> 0"
      by blast
    have "cross t (last (b # pre)) pt \<le> 0"
    proof (cases pre)
      case Nil
      with s have "t = a" by simp
      with Nil True show ?thesis by simp
    next
      case (Cons x xs)
      with l show ?thesis by simp
    qed
    moreover have "b # a # rest = (b # pre) @ t # rest'" using s by simp
    moreover have "popTurns (b # a # rest) pt = t # rest'" using True p by simp
    ultimately show ?thesis using e by blast
  next
    case False
    then have "popTurns (b # a # rest) pt = b # a # rest" by simp
    moreover have "b # a # rest = [] @ b # a # rest" by simp
    moreover from False have "0 < cross (hd (a # rest)) b pt" by simp
    ultimately show ?thesis by blast
  qed
qed

lemma leftOfChain_suffix: "leftOfChain (xs @ ys) q \<Longrightarrow> leftOfChain ys q"
proof (induction xs)
  case Nil
  then show ?case by simp
next
  case (Cons x xs)
  then show ?case by (cases "xs @ ys") auto
qed

lemma leftOfChain_junction:
  "leftOfChain (pre @ t # rest) q \<Longrightarrow> pre \<noteq> [] \<Longrightarrow> 0 \<le> cross t (last pre) q"
proof (induction pre)
  case Nil
  then show ?case by simp
next
  case (Cons x xs)
  show ?case
  proof (cases xs)
    case Nil
    with Cons.prems show ?thesis by simp
  next
    case (Cons y ys)
    with Cons.prems Cons.IH show ?thesis by simp
  qed
qed

lemma leftOfChain_new_point:
  assumes "\<forall>q \<in> S. leftOfChain (t # rest) q" "set (t # rest) \<subseteq> S"
      and "sorted_wrt (\<lambda>b a. lexLess a b) (t # rest)" "lexLess t pt"
      and "rest = [] \<or> 0 \<le> cross (hd rest) t pt"
  shows "leftOfChain (t # rest) pt"
  using assms
proof (induction rest arbitrary: t)
  case Nil
  then show ?case by simp
next
  case (Cons a r)
  from Cons.prems(5) have top: "0 \<le> cross a t pt" by simp
  from Cons.prems(3) have at: "lexLess a t" by simp
  from at Cons.prems(4) have apt: "lexLess a pt" by (rule lexLess_trans)
  have "leftOfChain (a # r) pt"
  proof (rule Cons.IH)
    show "\<forall>q \<in> S. leftOfChain (a # r) q" using Cons.prems(1) by simp
    show "set (a # r) \<subseteq> S" using Cons.prems(2) by simp
    show "sorted_wrt (\<lambda>b a. lexLess a b) (a # r)" using Cons.prems(3) by simp
    show "lexLess a pt" by (rule apt)
    show "r = [] \<or> 0 \<le> cross (hd r) a pt"
    proof (cases r)
      case Nil
      then show ?thesis by simp
    next
      case (Cons a2 r2)
      from Cons.prems(2) have "t \<in> S" by simp
      with Cons.prems(1) have "leftOfChain (t # a # r) t" by blast
      with Cons have c: "0 \<le> cross a2 a t" by simp
      from Cons.prems(3) Cons have "lexLess a2 a" by simp
      from cross_chain_extend [OF this at apt c top] Cons show ?thesis by simp
    qed
  qed
  with top show ?case by simp
qed

lemma chainInv_step:
  assumes inv: "chainInv S st" and gt: "\<forall>q \<in> S. lexLess q pt"
  shows "chainInv (insert pt S) (pt # popTurns st pt)"
proof -
  from inv have ne: "st \<noteq> []" and sub: "set st \<subseteq> S"
    and srt: "sorted_wrt (\<lambda>b a. lexLess a b) st"
    and mn: "\<forall>q \<in> S. q = last st \<or> lexLess (last st) q"
    and mx: "\<forall>q \<in> S. q = hd st \<or> lexLess q (hd st)"
    and left: "\<forall>q \<in> S. leftOfChain st q"
    by (simp_all add: chainInv_def)
  from popTurns_split [OF ne, of pt] obtain pre t rest where
    st: "st = pre @ t # rest" and pop: "popTurns st pt = t # rest" and
    ex: "rest = [] \<or> 0 < cross (hd rest) t pt" and
    pp: "pre = [] \<or> cross t (last pre) pt \<le> 0"
    by blast
  from sub st have tS: "t \<in> S" and subr: "set (t # rest) \<subseteq> S" by auto
  from tS gt have tpt: "lexLess t pt" by blast
  from srt st have srt': "sorted_wrt (\<lambda>b a. lexLess a b) (t # rest)"
    by (simp add: sorted_wrt_append)
  have left': "\<forall>q \<in> S. leftOfChain (t # rest) q"
    using left st leftOfChain_suffix by blast
  have lpt: "leftOfChain (t # rest) pt"
    using left' subr srt' tpt ex by (intro leftOfChain_new_point [of S]) auto
  have top: "0 \<le> cross t pt q" if q: "q \<in> S" for q
  proof -
    consider "q = t" | "lexLess t q" | "lexLess q t" using lexLess_total [of q t] by blast
    then show ?thesis
    proof cases
      case 1
      then show ?thesis by simp
    next
      case 2
      have "pre \<noteq> []"
      proof
        assume "pre = []"
        with st have "hd st = t" by simp
        with mx q have "q = t \<or> lexLess q t" by blast
        with 2 show False by (auto dest: lexLess_asym)
      qed
      then have f: "last pre \<in> set pre" by simp
      with srt st have tf: "lexLess t (last pre)" by (simp add: sorted_wrt_append)
      from pp \<open>pre \<noteq> []\<close> have c1: "cross t (last pre) pt \<le> 0" by simp
      from left q st have "leftOfChain (pre @ t # rest) q" by blast
      then have c2: "0 \<le> cross t (last pre) q" using \<open>pre \<noteq> []\<close> by (rule leftOfChain_junction)
      from cross_fan [OF tf tpt 2 c1 c2] show ?thesis .
    next
      case 3
      have "rest \<noteq> []"
      proof
        assume "rest = []"
        with st have "last st = t" by simp
        with mn q have "q = t \<or> lexLess t q" by blast
        with 3 show False by (auto dest: lexLess_asym)
      qed
      then obtain a r where rest: "rest = a # r" by (cases rest) auto
      from srt' rest have at: "lexLess a t" by simp
      from ex rest have c1: "0 \<le> cross a t pt" by simp
      from left' q rest have c2: "0 \<le> cross a t q" by auto
      from cross_back [OF at tpt 3 c1 c2] show ?thesis .
    qed
  qed
  have "pt # popTurns st pt \<noteq> []" by simp
  moreover have "set (pt # popTurns st pt) \<subseteq> insert pt S"
    using pop subr by auto
  moreover have "sorted_wrt (\<lambda>b a. lexLess a b) (pt # popTurns st pt)"
    using pop srt' subr gt by auto
  moreover have "\<forall>q \<in> insert pt S. q = last (pt # popTurns st pt) \<or> lexLess (last (pt # popTurns st pt)) q"
  proof -
    have l: "last (pt # popTurns st pt) = last st" using pop st by simp
    from ne sub have "last st \<in> S" by auto
    with gt have "lexLess (last st) pt" by blast
    with mn show ?thesis unfolding l by blast
  qed
  moreover have "\<forall>q \<in> insert pt S. q = hd (pt # popTurns st pt) \<or> lexLess q (hd (pt # popTurns st pt))"
    using gt by simp
  moreover have "\<forall>q \<in> insert pt S. leftOfChain (pt # popTurns st pt) q"
    using pop top left' lpt by simp
  ultimately show ?thesis unfolding chainInv_def by blast
qed

lemma chainInv_foldl:
  assumes "chainInv S st" "sorted_wrt lexLess xs" "\<forall>q \<in> S. \<forall>x \<in> set xs. lexLess q x"
  shows "chainInv (S \<union> set xs) (foldl (\<lambda>st pt. pt # popTurns st pt) st xs)"
  using assms
proof (induction xs arbitrary: S st)
  case Nil
  then show ?case by simp
next
  case (Cons x xs)
  from Cons.prems(1,3) have step: "chainInv (insert x S) (x # popTurns st x)"
    by (intro chainInv_step) auto
  have "chainInv (insert x S \<union> set xs) (foldl (\<lambda>st pt. pt # popTurns st pt) (x # popTurns st x) xs)"
  proof (rule Cons.IH [OF step])
    show "sorted_wrt lexLess xs" using Cons.prems(2) by simp
    show "\<forall>q \<in> insert x S. \<forall>y \<in> set xs. lexLess q y"
      using Cons.prems(2,3) by auto
  qed
  then show ?case by simp
qed

lemma chainInv_single: "chainInv {x} [x]"
  by (simp add: chainInv_def)

lemma chainInv_chain:
  assumes "xs \<noteq> []" "sorted_wrt lexLess xs"
  shows "chainInv (set xs) (foldl (\<lambda>st pt. pt # popTurns st pt) [] xs)"
proof -
  from assms(1) obtain x xs' where xs: "xs = x # xs'" by (cases xs) auto
  have "chainInv ({x} \<union> set xs') (foldl (\<lambda>st pt. pt # popTurns st pt) [x] xs')"
    using assms(2) xs by (intro chainInv_foldl chainInv_single) auto
  then show ?thesis by (simp add: xs)
qed

lemma neg_neg [simp]: "neg (neg p) = p"
  by (simp add: neg_def)

lemma neg_eq_iff [simp]: "neg a = neg b \<longleftrightarrow> a = b"
  by (auto simp: neg_def prod_eq_iff)

lemma inj_neg: "inj neg"
  by (rule injI) simp

lemma cross_neg [simp]: "cross (neg a) (neg b) (neg c) = cross a b c"
  by (simp add: cross_def neg_def algebra_simps)

lemma lexLess_neg [simp]: "lexLess (neg a) (neg b) \<longleftrightarrow> lexLess b a"
  by (auto simp: lexLess_def neg_def)

lemma popTurns_neg: "popTurns (map neg st) (neg pt) = map neg (popTurns st pt)"
  by (induction st pt rule: popTurns.induct) simp_all

lemma foldl_chain_neg:
  "foldl (\<lambda>st pt. pt # popTurns st pt) (map neg st) (map neg xs)
     = map neg (foldl (\<lambda>st pt. pt # popTurns st pt) st xs)"
proof (induction xs arbitrary: st)
  case Nil
  then show ?case by simp
next
  case (Cons x xs)
  have "foldl (\<lambda>st pt. pt # popTurns st pt) (map neg st) (map neg (x # xs))
        = foldl (\<lambda>st pt. pt # popTurns st pt) (map neg (x # popTurns st x)) (map neg xs)"
    by (simp add: popTurns_neg)
  then show ?case by (simp only: Cons.IH foldl_Cons)
qed

lemma leftOfChain_neg: "leftOfChain (map neg st) (neg q) = leftOfChain st q"
  by (induction st q rule: leftOfChain.induct) simp_all

text \<open>The facts about a chain built over a descending list, read off the reflected chain.\<close>

lemma chain_descending:
  assumes "xs \<noteq> []" "sorted_wrt (\<lambda>a b. lexLess b a) xs"
  defines "st \<equiv> foldl (\<lambda>st pt. pt # popTurns st pt) [] xs"
  shows "st \<noteq> []" "set st \<subseteq> set xs" "sorted_wrt lexLess st"
    "\<forall>q \<in> set xs. q = last st \<or> lexLess q (last st)"
    "\<forall>q \<in> set xs. q = hd st \<or> lexLess (hd st) q"
    "\<forall>q \<in> set xs. leftOfChain st q"
proof -
  have srt: "sorted_wrt lexLess (map neg xs)"
    using assms(2) by (simp add: sorted_wrt_map)
  have "chainInv (set (map neg xs)) (foldl (\<lambda>st pt. pt # popTurns st pt) [] (map neg xs))"
    using assms(1) srt by (intro chainInv_chain) simp
  moreover have "foldl (\<lambda>st pt. pt # popTurns st pt) [] (map neg xs) = map neg st"
    using foldl_chain_neg [of "[]" xs] by (simp add: st_def)
  ultimately have inv: "chainInv (neg ` set xs) (map neg st)" by simp
  then show ne: "st \<noteq> []" by (simp add: chainInv_def)
  from inv have "neg ` set st \<subseteq> neg ` set xs" by (simp add: chainInv_def)
  then show "set st \<subseteq> set xs"
    by (simp only: inj_image_subset_iff [OF inj_neg])
  from inv have "sorted_wrt (\<lambda>b a. lexLess a b) (map neg st)" by (simp add: chainInv_def)
  then show "sorted_wrt lexLess st" by (simp add: sorted_wrt_map)
  from inv have "\<forall>q \<in> neg ` set xs. q = last (map neg st) \<or> lexLess (last (map neg st)) q"
    by (simp add: chainInv_def)
  then have "\<forall>q \<in> set xs. neg q = neg (last st) \<or> lexLess (neg (last st)) (neg q)"
    using ne by (simp add: last_map)
  then show "\<forall>q \<in> set xs. q = last st \<or> lexLess q (last st)"
    by simp
  from inv have "\<forall>q \<in> neg ` set xs. q = hd (map neg st) \<or> lexLess q (hd (map neg st))"
    by (simp add: chainInv_def)
  then have "\<forall>q \<in> set xs. neg q = neg (hd st) \<or> lexLess (neg q) (neg (hd st))"
    using ne by (simp add: hd_map)
  then show "\<forall>q \<in> set xs. q = hd st \<or> lexLess (hd st) q"
    by simp
  from inv have "\<forall>q \<in> neg ` set xs. leftOfChain (map neg st) q" by (simp add: chainInv_def)
  then show "\<forall>q \<in> set xs. leftOfChain st q" by (simp add: leftOfChain_neg)
qed

lemma cmpPt_le: "cmpPt a b \<le> 0 \<longleftrightarrow> a = b \<or> lexLess a b"
  by (cases a, cases b) (auto simp: cmpPt_def lexLess_def)

lemma set_insertPt [simp]: "set (insertPt a xs) = insert a (set xs)"
  by (induction xs) auto

lemma sorted_insertPt:
  assumes "sorted_wrt (\<lambda>a b. a = b \<or> lexLess a b) xs"
  shows "sorted_wrt (\<lambda>a b. a = b \<or> lexLess a b) (insertPt a xs)"
  using assms
proof (induction xs)
  case Nil
  then show ?case by simp
next
  case (Cons b bs)
  show ?case
  proof (cases "cmpPt a b \<le> 0")
    case True
    then have ab: "a = b \<or> lexLess a b" by (simp add: cmpPt_le)
    have "\<forall>y \<in> set bs. a = y \<or> lexLess a y"
    proof
      fix y assume "y \<in> set bs"
      with Cons.prems have "b = y \<or> lexLess b y" by simp
      with ab show "a = y \<or> lexLess a y" by (auto intro: lexLess_trans)
    qed
    with True ab Cons.prems show ?thesis by simp
  next
    case False
    then have "\<not> (a = b \<or> lexLess a b)" by (simp add: cmpPt_le)
    then have "lexLess b a" using lexLess_total [of a b] by blast
    with False Cons show ?thesis by auto
  qed
qed

lemma set_sortPts [simp]: "set (sortPts pts) = set pts"
  unfolding sortPts_def by (induction pts) simp_all

lemma length_insertPt [simp]: "length (insertPt a xs) = Suc (length xs)"
  by (induction xs) auto

lemma length_sortPts [simp]: "length (sortPts pts) = length pts"
  unfolding sortPts_def by (induction pts) simp_all

lemma sorted_sortPts: "sorted_wrt (\<lambda>a b. a = b \<or> lexLess a b) (sortPts pts)"
  unfolding sortPts_def by (induction pts) (simp_all add: sorted_insertPt)

lemma distinct_sortPts: "distinct pts \<Longrightarrow> distinct (sortPts pts)"
  by (simp add: card_distinct distinct_card)

lemma sorted_wrt_strict:
  "sorted_wrt (\<lambda>a b. a = b \<or> lexLess a b) xs \<Longrightarrow> distinct xs \<Longrightarrow> sorted_wrt lexLess xs"
  by (induction xs) auto

lemma sortPts_ascending: "distinct pts \<Longrightarrow> sorted_wrt lexLess (sortPts pts)"
  by (intro sorted_wrt_strict sorted_sortPts distinct_sortPts)

lemma leftOfChain_successively:
  "leftOfChain st q = successively (\<lambda>b a. 0 \<le> cross a b q) st"
  by (induction st q rule: leftOfChain.induct) simp_all

lemma edges_successively:
  assumes "successively E (H @ [hd H])" "(a, b) \<in> set (edges H)"
  shows "E a b"
proof -
  from assms(2) obtain i where i: "i < length H" and a: "a = H ! i"
    and b: "b = H ! ((i + 1) mod length H)"
    by (auto simp: edges_def)
  from i have ne: "H \<noteq> []" by auto
  have "E ((H @ [hd H]) ! i) ((H @ [hd H]) ! Suc i)"
    using successively_nth [OF assms(1), of i] i by simp
  moreover have "(H @ [hd H]) ! i = a" using i a by (simp add: nth_append)
  moreover have "(H @ [hd H]) ! Suc i = b"
  proof (cases "Suc i < length H")
    case True
    then show ?thesis using b by (simp add: nth_append)
  next
    case False
    with i have "Suc i = length H" by simp
    then show ?thesis using b ne by (simp add: nth_append hd_conv_nth)
  qed
  ultimately show ?thesis by simp
qed

lemma sorted_wrt_lexLess_distinct: "sorted_wrt lexLess xs \<Longrightarrow> distinct xs"
  by (induction xs) auto

lemma sorted_wrt_lexGreater_distinct: "sorted_wrt (\<lambda>b a. lexLess a b) xs \<Longrightarrow> distinct xs"
  by (induction xs) auto

lemma successor_in_list:
  assumes "x \<in> set xs" "x \<noteq> last xs"
  shows "\<exists>pre a post. xs = pre @ x # a # post"
proof -
  from assms(1) obtain pre rest where xs: "xs = pre @ x # rest" by (auto dest: split_list)
  with assms(2) have "rest \<noteq> []" by auto
  then obtain a post where "rest = a # post" by (cases rest) auto
  with xs show ?thesis by blast
qed

lemma cross_swap_ends: "cross c x a = - cross a x c"
  by (simp add: cross_def algebra_simps)

lemma cross_reverse_edge: "cross b a q = - cross a b q"
  by (simp add: cross_def algebra_simps)

lemma cross_rotate: "cross b c a = cross a b c"
  by (simp add: cross_def algebra_simps)

text \<open>Everything known about the two chains of a list of distinct points.\<close>

lemma chains:
  assumes "distinct pts" "pts \<noteq> []"
  defines "cl \<equiv> foldl (\<lambda>st pt. pt # popTurns st pt) [] (sortPts pts)"
      and "cu \<equiv> foldl (\<lambda>st pt. pt # popTurns st pt) [] (rev (sortPts pts))"
  shows "cl \<noteq> []" "cu \<noteq> []" "set cl \<subseteq> set pts" "set cu \<subseteq> set pts"
    "sorted_wrt (\<lambda>b a. lexLess a b) cl" "sorted_wrt lexLess cu"
    "last cl = hd cu" "hd cl = last cu"
    "\<forall>q \<in> set pts. q = hd cu \<or> lexLess (hd cu) q"
    "\<forall>q \<in> set pts. q = hd cl \<or> lexLess q (hd cl)"
    "\<forall>q \<in> set pts. leftOfChain cl q" "\<forall>q \<in> set pts. leftOfChain cu q"
proof -
  have ne: "sortPts pts \<noteq> []" using assms(2) by (metis length_0_conv length_sortPts)
  have asc: "sorted_wrt lexLess (sortPts pts)" using assms(1) by (rule sortPts_ascending)
  have inv: "chainInv (set pts) cl"
    using chainInv_chain [OF ne asc] by (simp add: cl_def)
  have desc: "sorted_wrt (\<lambda>a b. lexLess b a) (rev (sortPts pts))"
    using asc by (simp add: sorted_wrt_rev)
  have rne: "rev (sortPts pts) \<noteq> []" using ne by simp
  note u = chain_descending [OF rne desc, folded cu_def, simplified]
  from inv show c1: "cl \<noteq> []" and c2: "set cl \<subseteq> set pts" and "sorted_wrt (\<lambda>b a. lexLess a b) cl"
    and mn: "\<forall>q \<in> set pts. q = hd cl \<or> lexLess q (hd cl)" and "\<forall>q \<in> set pts. leftOfChain cl q"
    by (simp_all add: chainInv_def)
  from inv have lmin: "\<forall>q \<in> set pts. q = last cl \<or> lexLess (last cl) q"
    by (simp add: chainInv_def)
  from u show u1: "cu \<noteq> []" and u2: "set cu \<subseteq> set pts" and "sorted_wrt lexLess cu"
    and umin: "\<forall>q \<in> set pts. q = hd cu \<or> lexLess (hd cu) q" and "\<forall>q \<in> set pts. leftOfChain cu q"
    by simp_all
  from u have umax: "\<forall>q \<in> set pts. q = last cu \<or> lexLess q (last cu)" by simp
  have "last cl \<in> set pts" "hd cu \<in> set pts" "hd cl \<in> set pts" "last cu \<in> set pts"
    using c1 c2 u1 u2 by auto
  then have m: "last cl \<in> set pts" "hd cu \<in> set pts" "hd cl \<in> set pts" "last cu \<in> set pts" .
  from lmin m(2) have "hd cu = last cl \<or> lexLess (last cl) (hd cu)" by blast
  moreover from umin m(1) have "last cl = hd cu \<or> lexLess (hd cu) (last cl)" by blast
  ultimately show "last cl = hd cu" by (auto dest: lexLess_asym)
  from mn m(4) have "last cu = hd cl \<or> lexLess (last cu) (hd cl)" by blast
  moreover from umax m(3) have "hd cl = last cu \<or> lexLess (hd cl) (last cu)" by blast
  ultimately show "hd cl = last cu" by (auto dest: lexLess_asym)
qed

lemma convexHull_large:
  "3 < length pts \<Longrightarrow>
     convexHull pts =
       rev (tl (foldl (\<lambda>st pt. pt # popTurns st pt) [] (sortPts pts))) @
       rev (tl (foldl (\<lambda>st pt. pt # popTurns st pt) [] (rev (sortPts pts))))"
  by (simp add: convexHull_def halfHull_def Let_def)

lemma length_one_single: "length xs = 1 \<Longrightarrow> \<exists>y. xs = [y]"
  by (cases xs) auto

lemma hull_large:
  assumes gp: "generalPosition pts" and n: "3 < length pts"
  shows "set (convexHull pts) \<subseteq> set pts"
    and "\<forall>q \<in> set pts. \<forall>(a, b) \<in> set (edges (convexHull pts)). 0 \<le> cross a b q"
    and "distinct (convexHull pts)"
    and "3 \<le> length (convexHull pts)"
proof -
  define cl where "cl = foldl (\<lambda>st pt. pt # popTurns st pt) [] (sortPts pts)"
  define cu where "cu = foldl (\<lambda>st pt. pt # popTurns st pt) [] (rev (sortPts pts))"
  define H where "H = convexHull pts"
  have H: "H = rev (tl cl) @ rev (tl cu)"
    unfolding H_def cl_def cu_def using n by (rule convexHull_large)
  from gp have dist: "distinct pts"
    and nocol: "\<And>a b c. a \<in> set pts \<Longrightarrow> b \<in> set pts \<Longrightarrow> c \<in> set pts \<Longrightarrow>
                  a \<noteq> b \<Longrightarrow> b \<noteq> c \<Longrightarrow> a \<noteq> c \<Longrightarrow> cross a b c \<noteq> 0"
    by (auto simp: generalPosition_def)
  from n have ne: "pts \<noteq> []" by auto
  note c = chains [OF dist ne, folded cl_def cu_def]
  have clne: "cl \<noteq> []" and cune: "cu \<noteq> []" by (rule c)+
  have clsub: "set cl \<subseteq> set pts" and cusub: "set cu \<subseteq> set pts" by (rule c)+
  have clsrt: "sorted_wrt (\<lambda>b a. lexLess a b) cl" and cusrt: "sorted_wrt lexLess cu" by (rule c)+
  have lasthd: "last cl = hd cu" and hdlast: "hd cl = last cu" by (rule c)+
  have mn: "\<forall>q \<in> set pts. q = hd cu \<or> lexLess (hd cu) q"
    and mx: "\<forall>q \<in> set pts. q = hd cl \<or> lexLess q (hd cl)" by (rule c)+
  have lcl: "\<forall>q \<in> set pts. leftOfChain cl q" and lcu: "\<forall>q \<in> set pts. leftOfChain cu q"
    by (rule c)+
  have cld: "distinct cl" using clsrt by (rule sorted_wrt_lexGreater_distinct)
  have cud: "distinct cu" using cusrt by (rule sorted_wrt_lexLess_distinct)
  have card: "card (set pts) = length pts" using dist by (rule distinct_card)

  have ends: "hd cl \<noteq> hd cu"
  proof
    assume e: "hd cl = hd cu"
    have "set pts \<subseteq> {hd cl}"
    proof
      fix q assume q: "q \<in> set pts"
      from mn q e have "q = hd cl \<or> lexLess (hd cl) q" by simp
      moreover from mx q have "q = hd cl \<or> lexLess q (hd cl)" by simp
      ultimately show "q \<in> {hd cl}" by (auto dest: lexLess_asym)
    qed
    then have "card (set pts) \<le> card {hd cl}" by (intro card_mono) simp_all
    with card n show False by simp
  qed
  have tlcl: "tl cl \<noteq> []"
  proof
    assume "tl cl = []"
    with clne have "cl = [hd cl]" by (cases cl) auto
    then have "last cl = hd cl" by (metis last.simps)
    with lasthd ends show False by simp
  qed
  have tlcu: "tl cu \<noteq> []"
  proof
    assume "tl cu = []"
    with cune have "cu = [hd cu]" by (cases cu) auto
    then have "last cu = hd cu" by (metis last.simps)
    with hdlast ends show False by simp
  qed
  have clsplit: "rev cl = rev (tl cl) @ [hd cl]" using clne by (cases cl) auto
  have cusplit: "rev cu = rev (tl cu) @ [hd cu]" using cune by (cases cu) auto

  show sub: "set (convexHull pts) \<subseteq> set pts"
  proof -
    have "set (tl cl) \<subseteq> set cl" "set (tl cu) \<subseteq> set cu"
      by (cases cl; auto) (cases cu; auto)
    with clsub cusub show ?thesis unfolding H_def [symmetric] H by auto
  qed

  show "\<forall>q \<in> set pts. \<forall>(a, b) \<in> set (edges (convexHull pts)). 0 \<le> cross a b q"
  proof (intro ballI, clarify)
    fix q a b assume q: "q \<in> set pts" and ab: "(a, b) \<in> set (edges (convexHull pts))"
    let ?E = "\<lambda>a b. 0 \<le> cross a b q"
    from lcl q have "successively ?E (rev cl)"
      by (simp add: leftOfChain_successively)
    then have l1: "successively ?E (rev (tl cl))" and l2: "?E (last (rev (tl cl))) (hd cl)"
      unfolding clsplit using tlcl by (simp_all add: successively_append_iff)
    from lcu q have u1: "successively ?E (rev cu)"
      by (simp add: leftOfChain_successively)
    have hdrev: "hd (rev cu) = hd cl" using cune hdlast by (simp add: hd_rev)
    have "successively ?E (rev (tl cl) @ rev cu)"
      using l1 l2 u1 hdrev by (simp add: successively_append_iff)
    moreover have "hd H = hd cu"
    proof -
      have "hd H = last (tl cl)" unfolding H using tlcl by (simp add: hd_rev)
      also have "\<dots> = last cl" using tlcl by (simp add: last_tl)
      finally show ?thesis using lasthd by simp
    qed
    then have "H @ [hd H] = rev (tl cl) @ rev cu" unfolding H cusplit by simp
    ultimately have "successively ?E (H @ [hd H])" by simp
    from edges_successively [of ?E H, OF this] ab show "0 \<le> cross a b q"
      unfolding H_def by simp
  qed

  have disj: "set (tl cl) \<inter> set (tl cu) = {}"
  proof (rule ccontr)
    assume "set (tl cl) \<inter> set (tl cu) \<noteq> {}"
    then obtain x where x1: "x \<in> set (tl cl)" and x2: "x \<in> set (tl cu)" by auto
    from x1 have xcl: "x \<in> set cl" by (rule list.set_sel(2) [rotated]) (rule clne)
    from x2 have xcu: "x \<in> set cu" by (rule list.set_sel(2) [rotated]) (rule cune)
    from x1 cld clne have "x \<noteq> hd cl" by (cases cl) auto
    then have "x \<noteq> last cu" using hdlast by simp
    from x2 cud cune have "x \<noteq> hd cu" by (cases cu) auto
    then have "x \<noteq> last cl" using lasthd by simp
    from successor_in_list [OF xcl \<open>x \<noteq> last cl\<close>] obtain pre a post
      where cl: "cl = pre @ x # a # post" by blast
    from successor_in_list [OF xcu \<open>x \<noteq> last cu\<close>] obtain pre' c post'
      where cu: "cu = pre' @ x # c # post'" by blast
    have aS: "a \<in> set pts" using clsub cl by auto
    have cS: "c \<in> set pts" using cusub cu by auto
    have xS: "x \<in> set pts" using clsub xcl by auto
    have ax: "lexLess a x" using clsrt cl by (simp add: sorted_wrt_append)
    have xc: "lexLess x c" using cusrt cu by (simp add: sorted_wrt_append)
    from lcl cS have "successively (\<lambda>b a. 0 \<le> cross a b c) cl"
      by (simp add: leftOfChain_successively)
    then have e1: "0 \<le> cross a x c"
      unfolding cl by (simp add: successively_append_iff)
    from lcu aS have "successively (\<lambda>b a'. 0 \<le> cross a' b a) cu"
      by (simp add: leftOfChain_successively)
    then have "0 \<le> cross c x a"
      unfolding cu by (simp add: successively_append_iff)
    with e1 have "cross a x c = 0" by (simp add: cross_swap_ends [of c x a])
    moreover have "a \<noteq> x" "x \<noteq> c" "a \<noteq> c"
      using ax xc lexLess_trans [OF ax xc] by auto
    ultimately show False using nocol [OF aS xS cS] by simp
  qed

  show d: "distinct (convexHull pts)"
    unfolding H_def [symmetric] H using cld cud disj
    by (simp add: distinct_tl)

  show "3 \<le> length (convexHull pts)"
  proof (rule ccontr)
    assume "\<not> 3 \<le> length (convexHull pts)"
    then have "length (tl cl) + length (tl cu) < 3"
      unfolding H_def [symmetric] H by simp
    moreover have "0 < length (tl cl)" "0 < length (tl cu)"
      using tlcl tlcu by (simp_all only: length_greater_0_conv not_False_eq_True)
    ultimately have one: "length (tl cl) = 1" "length (tl cu) = 1" by linarith+
    from length_one_single [OF one(1)] length_one_single [OF one(2)]
    obtain y z where "tl cl = [y]" "tl cu = [z]" by blast
    with clne cune have cl: "cl = [hd cl, y]" and cu: "cu = [hd cu, z]"
      by (cases cl; cases cu; auto)+
    from cl have "last cl = y" by (metis last.simps list.distinct(1))
    with lasthd have y: "y = hd cu" by simp
    from cu have "last cu = z" by (metis last.simps list.distinct(1))
    with hdlast have z: "z = hd cl" by simp
    have "card (set pts - {hd cl, hd cu}) \<noteq> 0"
    proof -
      have "card (set pts - {hd cl, hd cu}) \<ge> card (set pts) - card {hd cl, hd cu}"
        by (intro diff_card_le_card_Diff) simp
      moreover have "card {hd cl, hd cu} \<le> 2" by (simp add: card_insert_if)
      ultimately show ?thesis using card n by linarith
    qed
    then obtain q where q: "q \<in> set pts" "q \<noteq> hd cl" "q \<noteq> hd cu"
      by (metis DiffD1 DiffD2 card.empty ex_in_conv insertCI)
    from lcl q(1) have "leftOfChain cl q" by blast
    then have e1: "0 \<le> cross (hd cu) (hd cl) q"
      by (subst (asm) cl) (simp add: y)
    from lcu q(1) have "leftOfChain cu q" by blast
    then have "0 \<le> cross (hd cl) (hd cu) q"
      by (subst (asm) cu) (simp add: z)
    with e1 have "cross (hd cu) (hd cl) q = 0"
      by (simp add: cross_reverse_edge [of "hd cl" "hd cu" q])
    moreover have "hd cu \<in> set pts" "hd cl \<in> set pts" using clne cune clsub cusub by auto
    ultimately show False using nocol [of "hd cu" "hd cl" q] q ends by auto
  qed
qed

lemma cyclic_indices:
  fixes n i :: nat
  assumes "3 \<le> n" "i < n"
  shows "(i + 1) mod n < n" "(i + 2) mod n < n"
    "i \<noteq> (i + 1) mod n" "(i + 1) mod n \<noteq> (i + 2) mod n" "i \<noteq> (i + 2) mod n"
proof -
  from assms have pos: "0 < n" by simp
  then show "(i + 1) mod n < n" "(i + 2) mod n < n" by simp_all
  consider "i + 2 < n" | "i + 2 = n" | "i + 1 = n" using assms(2) by linarith
  then have "i \<noteq> (i + 1) mod n \<and> (i + 1) mod n \<noteq> (i + 2) mod n \<and> i \<noteq> (i + 2) mod n"
  proof cases
    case 1
    then show ?thesis by simp
  next
    case 2
    then have "(i + 1) mod n = i + 1" "(i + 2) mod n = 0" by simp_all
    with 2 assms(1) show ?thesis by simp
  next
    case 3
    then have a: "(i + 1) mod n = 0" by simp
    from 3 have "i + 2 = n + 1" by simp
    then have "(i + 2) mod n = (n + 1) mod n" by simp
    also have "\<dots> = 1 mod n" by (rule mod_add_self1)
    also have "\<dots> = 1" using assms(1) by simp
    finally have b: "(i + 2) mod n = 1" .
    from 3 assms(1) a b show ?thesis by simp
  qed
  then show "i \<noteq> (i + 1) mod n" "(i + 1) mod n \<noteq> (i + 2) mod n" "i \<noteq> (i + 2) mod n"
    by simp_all
qed

lemma winding_large:
  assumes gp: "generalPosition pts" and n: "3 < length pts"
  shows "windingSign (convexHull pts) 1"
  unfolding windingSign_def
proof (intro allI impI)
  fix i assume i: "i < length (convexHull pts)"
  let ?H = "convexHull pts"
  let ?n = "length ?H"
  let ?a = "?H ! i" and ?b = "?H ! ((i + 1) mod ?n)" and ?c = "?H ! ((i + 2) mod ?n)"
  note h = hull_large [OF gp n]
  note ix = cyclic_indices [OF h(4) i]
  have ab: "(?a, ?b) \<in> set (edges ?H)"
    using i by (auto simp: edges_def)
  have aS: "?a \<in> set pts" using h(1) i by (auto dest: nth_mem)
  have bS: "?b \<in> set pts" using h(1) ix(1) by (auto dest: nth_mem)
  have cS: "?c \<in> set pts" using h(1) ix(2) by (auto dest: nth_mem)
  from h(2) cS ab have ge: "0 \<le> cross ?a ?b ?c" by blast
  have "?a \<noteq> ?b" "?b \<noteq> ?c" "?a \<noteq> ?c"
    using h(3) i ix by (simp_all add: nth_eq_iff_index_eq)
  with gp aS bS cS have "cross ?a ?b ?c \<noteq> 0"
    unfolding generalPosition_def by blast
  with ge have "0 < cross ?a ?b ?c" by simp
  then show "sgn (cross ?a ?b ?c) = 1" by simp
qed

lemma edges_1: "edges [a] = [(a, a)]"
  by (simp add: edges_def)

lemma edges_2: "edges [a, b] = [(a, b), (b, a)]"
  by (simp add: edges_def upt_rec)

lemma edges_3: "edges [a, b, c] = [(a, b), (b, c), (c, a)]"
  by (simp add: edges_def upt_rec)

lemma hull_three:
  assumes "generalPosition [a, b, c]"
  shows "windingSign [a, b, c] (sgn (cross a b c))"
    and "\<forall>q \<in> set [a, b, c]. insideOrOn [a, b, c] (sgn (cross a b c)) q"
    and "sgn (cross a b c) = 1 \<or> sgn (cross a b c) = - 1"
proof -
  from assms have nz: "cross a b c \<noteq> 0" by (simp add: generalPosition_def)
  show "sgn (cross a b c) = 1 \<or> sgn (cross a b c) = - 1"
    using nz by (simp add: sgn_real_def)
  have r: "cross b c a = cross a b c" "cross c a b = cross a b c"
    by (simp_all add: cross_def algebra_simps)
  show "windingSign [a, b, c] (sgn (cross a b c))"
    unfolding windingSign_def
  proof (intro allI impI)
    fix i assume "i < length [a, b, c]"
    then consider "i = 0" | "i = 1" | "i = 2" by fastforce
    then show "sgn (cross ([a, b, c] ! i) ([a, b, c] ! ((i + 1) mod length [a, b, c]))
                     ([a, b, c] ! ((i + 2) mod length [a, b, c]))) = sgn (cross a b c)"
      by cases (simp_all add: r)
  qed
  have s: "0 \<le> sgn (cross a b c) * cross a b c"
    by (simp add: sgn_real_def)
  show "\<forall>q \<in> set [a, b, c]. insideOrOn [a, b, c] (sgn (cross a b c)) q"
    using s by (simp add: insideOrOn_def edges_3 r)
qed

text \<open>
  C5. A list of at most three points is returned unchanged, whatever the points. For
  every non-empty list of points in general position the hull is not empty and has at
  least three vertices when the input has three points or more, its vertices are
  distinct input points, they wind consistently (every three cyclically consecutive
  vertices turn with the same sign \<open>s\<close>, for three or more points, and \<open>s = 1\<close> for more
  than three), and every input point is on or inside the hull (on the inner side of, or
  on, every edge).
\<close>

theorem convexHull_correct:
  "(length pts \<le> 3 \<longrightarrow> convexHull pts = pts) \<and>
   (pts \<noteq> [] \<and> generalPosition pts \<longrightarrow>
      convexHull pts \<noteq> [] \<and>
      (3 \<le> length pts \<longrightarrow> 3 \<le> length (convexHull pts)) \<and>
      distinct (convexHull pts) \<and>
      set (convexHull pts) \<subseteq> set pts \<and>
      (\<exists>s. (s = 1 \<or> s = - 1) \<and>
           (3 < length pts \<longrightarrow> s = 1) \<and>
           (3 \<le> length pts \<longrightarrow> windingSign (convexHull pts) s) \<and>
           (\<forall>q \<in> set pts. insideOrOn (convexHull pts) s q)))"
proof -
  have small: "length pts \<le> 3 \<longrightarrow> convexHull pts = pts"
    by (simp add: convexHull_def)
  have large: "convexHull pts \<noteq> [] \<and>
      (3 \<le> length pts \<longrightarrow> 3 \<le> length (convexHull pts)) \<and>
      distinct (convexHull pts) \<and>
      set (convexHull pts) \<subseteq> set pts \<and>
      (\<exists>s. (s = 1 \<or> s = - 1) \<and>
           (3 < length pts \<longrightarrow> s = 1) \<and>
           (3 \<le> length pts \<longrightarrow> windingSign (convexHull pts) s) \<and>
           (\<forall>q \<in> set pts. insideOrOn (convexHull pts) s q))"
    if ne: "pts \<noteq> []" and gp: "generalPosition pts"
  proof -
    from gp have dist: "distinct pts" by (simp add: generalPosition_def)
    consider (big) "3 < length pts" | (three) "length pts = 3" | (two) "length pts = 2"
      | (one) "length pts = 1"
    proof -
      from ne have "0 < length pts" by simp
      then have "3 < length pts \<or> length pts = 3 \<or> length pts = 2 \<or> length pts = 1"
        by linarith
      then show thesis using that by blast
    qed
    then show ?thesis
    proof cases
      case big
      note h = hull_large [OF gp big]
      from h(4) have "convexHull pts \<noteq> []" by auto
      moreover have "\<forall>q \<in> set pts. insideOrOn (convexHull pts) 1 q"
        using h(2) by (simp add: insideOrOn_def)
      ultimately show ?thesis
        using h(1,3,4) winding_large [OF gp big] by blast
    next
      case three
      then obtain a b c where pts: "pts = [a, b, c]"
        by (auto simp: length_Suc_conv numeral_3_eq_3)
      have hull: "convexHull [a, b, c] = [a, b, c]" by (simp add: convexHull_def)
      from gp pts have gp3: "generalPosition [a, b, c]" by simp
      from dist pts have d3: "distinct [a, b, c]" by simp
      from hull_three [OF gp3] d3 show ?thesis unfolding pts hull by auto
    next
      case two
      then obtain a b where pts: "pts = [a, b]"
        by (auto simp: length_Suc_conv numeral_2_eq_2)
      have hull: "convexHull [a, b] = [a, b]" by (simp add: convexHull_def)
      have "\<forall>q \<in> set [a, b]. insideOrOn [a, b] 1 q"
        by (simp add: insideOrOn_def edges_2)
      with dist pts show ?thesis unfolding pts hull by auto
    next
      case one
      then obtain a where pts: "pts = [a]"
        by (auto simp: length_Suc_conv)
      have hull: "convexHull [a] = [a]" by (simp add: convexHull_def)
      have "\<forall>q \<in> set [a]. insideOrOn [a] 1 q"
        by (simp add: insideOrOn_def edges_1)
      then show ?thesis unfolding pts hull by auto
    qed
  qed
  from small large show ?thesis by blast
qed

text \<open>
  The five points: the hull is the square, counter-clockwise, and \<open>(1, 1 / 2)\<close> is inside.
\<close>

theorem convexHull_correct_witness:
  "hullInput \<noteq> [] \<and> generalPosition hullInput \<and>
   convexHull hullInput = [(0, 0), (2, 0), (2, 2), (0, 2)] \<and>
   windingSign (convexHull hullInput) 1 \<and>
   insideOrOn (convexHull hullInput) 1 (1, 1 / 2)"
proof -
  have ne: "hullInput \<noteq> []" by (simp add: hullInput_def)
  have gp: "generalPosition hullInput"
    by (simp add: generalPosition_def hullInput_def cross_def)
  have hull: "convexHull hullInput = [(0, 0), (2, 0), (2, 2), (0, 2)]"
    by (simp add: hullInput_def convexHull_def sortPts_def cmpPt_def halfHull_def cross_def)
  have len: "3 < length hullInput" by (simp add: hullInput_def)
  have mem: "(1, 1 / 2) \<in> set hullInput" by (simp add: hullInput_def)
  from convexHull_correct [of hullInput] ne gp obtain s where
    s: "3 < length hullInput \<longrightarrow> s = 1"
       "3 \<le> length hullInput \<longrightarrow> windingSign (convexHull hullInput) s"
       "\<forall>q \<in> set hullInput. insideOrOn (convexHull hullInput) s q"
    by blast
  from s(1) len have s1: "s = 1" by simp
  from s(2) len have "windingSign (convexHull hullInput) 1" unfolding s1 by simp
  moreover from s(3) mem have "insideOrOn (convexHull hullInput) 1 (1, 1 / 2)"
    unfolding s1 by blast
  ultimately show ?thesis using ne gp hull by simp
qed

end
